theory Spec2Isabelle
  imports Main "HOL-Library.Word" "HOL-Library.Monad_Syntax"
begin

unbundle bit_operations_syntax

section \<open>Data model of armsrc/legicrf.c\<close>

text \<open>
  Modelled from the spec: \<^verbatim>\<open>legic_card_select_t\<close> is declared in legic.h, which is not
  among the sources. Its fields are the ones \<^verbatim>\<open>init_card\<close> assigns, with the widths of
  the selection record of the host interface: tag type, command width and address width
  of one byte each, a two-byte memory size, four UID bytes.
\<close>

record legic_card_select_t =
  tagtype :: "8 word"
  cmdsize :: "8 word"
  addrsize :: "8 word"
  cardsize :: "16 word"
  uid :: "8 word list"

text \<open>
  Modelled from the spec: the keystream generator (legic_prng.c) is not among the
  sources. It is used through \<^verbatim>\<open>init(seed)\<close>, \<^verbatim>\<open>forward(n)\<close> and \<^verbatim>\<open>current_bit()\<close>
  only, and is a deterministic bit sequence fixed by the seed, with a position that moves
  by one per step. Its state is therefore the seed and the number of steps taken since
  the seed was set.
\<close>

record legic_prng =
  seed :: "8 word"
  pos :: nat

text \<open>
  Modelled from the spec: the two collaborators whose algorithms are not among the
  sources are parameters of the model, the keystream function (the bit at a position, for
  a seed) and the CRC-4 \<^verbatim>\<open>compute(value, bit_width)\<close> (legic_prng.c and crc.c).
\<close>

record collab =
  keystream :: "8 word \<Rightarrow> nat \<Rightarrow> bool"
  crc4 :: "32 word \<Rightarrow> nat \<Rightarrow> 8 word"

text \<open>The two FPGA major modes that legicrf.c selects with \<^verbatim>\<open>FpgaWriteConfWord\<close>.\<close>

datatype fpga_mode = HF_READER_TX | HF_READER_RX_XCORR_848_KHZ_QUARTER

text \<open>
  Modelled from the spec: the front end, the output line and the set-up routines are not
  among the sources; a call of one of them is recorded, in program order. The events: a
  mode word written to the FPGA, the level driven on \<^verbatim>\<open>GPIO_SSC_DOUT\<close>, a time stamp
  taken (\<^verbatim>\<open>ts = GetCountUS()\<close>), and a busy-wait that ended when the timer reached the
  last time stamp plus the given number of microseconds. \<^verbatim>\<open>Sys\<close> records a call of one
  of the set-up and shut-down routines by its name.
\<close>

datatype event =
    Conf fpga_mode
  | Pin bool
  | Stamp
  | Until "32 word"
  | Sys string

text \<open>
  Modelled from the spec: the host command interface (cmd.c) is not among the sources.
  A call of \<^verbatim>\<open>cmd_send(cmd, arg0, arg1, arg2, data, len)\<close> is recorded with its three
  arguments and the \<^verbatim>\<open>len\<close> bytes at \<^verbatim>\<open>data\<close> (the command is always \<^verbatim>\<open>CMD_ACK\<close>).
\<close>

record host_ack =
  arg0 :: nat
  arg1 :: nat
  arg2 :: nat
  payload :: "8 word list"

text \<open>
  The reader's state. Inputs from the hardware: \<open>ssc_rx\<close>, the bytes the SSC receiver
  still delivers (\<^verbatim>\<open>rx_byte_from_fpga\<close> polls for ever once they are used up), and
  \<open>timer\<close>, the successive readings of \<^verbatim>\<open>GetCountUS()\<close> with the number \<open>reads\<close> of
  readings taken so far. The file's statics: \<open>lfsr\<close> (the keystream state),
  \<open>input_threshold\<close>, \<open>card\<close> and \<open>legic_mem\<close> (the memory at
  \<^verbatim>\<open>BigBuf_get_EM_addr()\<close>, indexed from 0, with no upper limit since the C code checks
  none). Outputs: \<open>wire\<close>, \<open>dbg\<close> (the \<^verbatim>\<open>Dbprintf\<close> calls: format and arguments) and
  \<open>host\<close> (the \<^verbatim>\<open>cmd_send\<close> calls).

  \<^verbatim>\<open>int32_t\<close> values are \<open>int\<close>: every amplitude lies in 0..192 and the threshold
  in 8..384 (lemmas \<open>amplitude_range\<close> and \<open>calibrate_range\<close>), so no 32-bit operation wraps.
\<close>

record reader =
  ssc_rx :: "8 word list"
  timer :: "nat \<Rightarrow> 32 word"
  reads :: nat
  lfsr :: legic_prng
  input_threshold :: int
  card :: legic_card_select_t
  legic_mem :: "nat \<Rightarrow> 8 word"
  wire :: "event list"
  dbg :: "(string \<times> int list) list"
  host :: "host_ack list"

definition RWD_TIME_PAUSE :: "32 word" where "RWD_TIME_PAUSE = 20"
definition RWD_TIME_1 :: "32 word" where "RWD_TIME_1 = 100"
definition RWD_TIME_0 :: "32 word" where "RWD_TIME_0 = 60"
definition TAG_FRAME_WAIT :: "32 word" where "TAG_FRAME_WAIT = 330"
definition LEGIC_CARD_MEMSIZE :: nat where "LEGIC_CARD_MEMSIZE = 1024"

section \<open>I/O interface abstraction (FPGA -> ARM)\<close>

text \<open>
  \<^verbatim>\<open>rx_byte_from_fpga\<close> polls until the receive holding register has a byte. With no
  byte left to arrive the loop never ends: the value \<open>None\<close>.
\<close>

definition rx_byte_from_fpga :: "reader \<Rightarrow> (8 word \<times> reader) option" where
  "rx_byte_from_fpga s =
     (case ssc_rx s of
        [] \<Rightarrow> None
      | b # bs \<Rightarrow> Some (b, s\<lparr>ssc_rx := bs\<rparr>))"

section \<open>Demodulation\<close>

text \<open>\<^verbatim>\<open>MAX(i, q) + (MIN(i, q) >> 1)\<close> on the absolute values of the two signed bytes.\<close>

definition amplitude :: "8 word \<Rightarrow> 8 word \<Rightarrow> int" where
  "amplitude qb ib =
     (let q = \<bar>sint qb\<bar>; i = \<bar>sint ib\<bar>
      in max i q + (min i q) div 2)"

definition sample_power :: "reader \<Rightarrow> (int \<times> reader) option" where
  "sample_power s =
     do {
       (qb, s1) \<leftarrow> rx_byte_from_fpga s;
       (ib, s2) \<leftarrow> rx_byte_from_fpga s1;
       Some (amplitude qb ib, s2)
     }"

text \<open>The loop \<^verbatim>\<open>for (i = 0; i < 5; ++i) p[i] = sample_power();\<close> of \<^verbatim>\<open>rx_bit\<close>.\<close>

fun sample_powers :: "nat \<Rightarrow> reader \<Rightarrow> (int list \<times> reader) option" where
  "sample_powers 0 s = Some ([], s)"
| "sample_powers (Suc n) s =
     do {
       (x, s1) \<leftarrow> sample_power s;
       (xs, s2) \<leftarrow> sample_powers n s1;
       Some (x # xs, s2)
     }"

text \<open>
  Modelled from the spec: \<^verbatim>\<open>Dbprintf\<close> (the local diagnostic log) is not among the
  sources; a call is recorded with its format and its arguments.
\<close>

definition Dbprintf :: "string \<Rightarrow> int list \<Rightarrow> reader \<Rightarrow> reader" where
  "Dbprintf fmt args s = s\<lparr>dbg := dbg s @ [(fmt, args)]\<rparr>"

definition rx_bit :: "reader \<Rightarrow> (bool \<times> reader) option" where
  "rx_bit s =
     do {
       (p, s1) \<leftarrow> sample_powers 5 s;
       if p ! 2 > input_threshold s1 \<and> p ! 3 > input_threshold s1 then Some (True, s1)
       else if p ! 2 < input_threshold s1 \<and> p ! 3 < input_threshold s1 then Some (False, s1)
       else Some (False,
              Dbprintf ''rx_bit failed %i vs %i (threshold %i)''
                [p ! 2, p ! 3, input_threshold s1] s1)
     }"

section \<open>Timer\<close>

text \<open>
  Modelled from the spec: the timer service (ticks.c) is not among the sources; it is a
  microsecond counter that this file only reads. \<^verbatim>\<open>GetCountUS()\<close> returns the next
  reading, whatever it is. \<open>stamp\<close> is the statement \<^verbatim>\<open>ts = GetCountUS();\<close>.
\<close>

definition GetCountUS :: "reader \<Rightarrow> 32 word \<times> reader" where
  "GetCountUS s = (timer s (reads s), s\<lparr>reads := Suc (reads s)\<rparr>)"

definition emit :: "event \<Rightarrow> reader \<Rightarrow> reader" where
  "emit e s = s\<lparr>wire := wire s @ [e]\<rparr>"

definition stamp :: "reader \<Rightarrow> 32 word \<times> reader" where
  "stamp s = (let (ts, s1) = GetCountUS s in (ts, emit Stamp s1))"

text \<open>
  The loop \<^verbatim>\<open>while (GetCountUS() < deadline) { };\<close> with the 32-bit unsigned comparison
  of the source. It returns only when a reading reaches the deadline; otherwise the value
  is \<open>None\<close>.
\<close>

partial_function (option) busy_loop :: "32 word \<Rightarrow> reader \<Rightarrow> reader option" where
  "busy_loop deadline s =
     (case GetCountUS s of
        (t, s1) \<Rightarrow> if t < deadline then busy_loop deadline s1 else Some s1)"

declare busy_loop.simps [code]

text \<open>\<^verbatim>\<open>while (GetCountUS() < ts + d) { };\<close>, the sum taken in \<^verbatim>\<open>uint32_t\<close>.\<close>

definition busy_wait :: "32 word \<Rightarrow> 32 word \<Rightarrow> reader \<Rightarrow> reader option" where
  "busy_wait ts d s =
     do {
       s1 \<leftarrow> busy_loop (ts + d) s;
       Some (emit (Until d) s1)
     }"

section \<open>Modulation\<close>

text \<open>
  Modelled from the spec: the macros \<^verbatim>\<open>LOW\<close> and \<^verbatim>\<open>HIGH\<close> drive the output line; the
  level is recorded.
\<close>

definition LOW :: "reader \<Rightarrow> reader" where
  "LOW s = emit (Pin False) s"

definition HIGH :: "reader \<Rightarrow> reader" where
  "HIGH s = emit (Pin True) s"

definition tx_bit :: "bool \<Rightarrow> reader \<Rightarrow> reader option" where
  "tx_bit b s =
     (let (ts, s1) = stamp s;
          s2 = LOW s1
      in do {
           s3 \<leftarrow> busy_wait ts RWD_TIME_PAUSE s2;
           let s4 = HIGH s3;
           if b then busy_wait ts RWD_TIME_1 s4
           else busy_wait ts RWD_TIME_0 s4
         })"

section \<open>Keystream collaborator\<close>

text \<open>
  Modelled from the spec: \<^verbatim>\<open>legic_prng_init\<close> sets the seed and starts the sequence
  anew, \<^verbatim>\<open>legic_prng_forward\<close> moves the position, \<^verbatim>\<open>legic_prng_get_bit\<close> is the bit at
  the position and moves nothing.
\<close>

definition legic_prng_init :: "8 word \<Rightarrow> reader \<Rightarrow> reader" where
  "legic_prng_init iv s = s\<lparr>lfsr := \<lparr>seed = iv, pos = 0\<rparr>\<rparr>"

definition legic_prng_forward :: "nat \<Rightarrow> reader \<Rightarrow> reader" where
  "legic_prng_forward n s = s\<lparr>lfsr := (lfsr s)\<lparr>pos := pos (lfsr s) + n\<rparr>\<rparr>"

definition legic_prng_get_bit :: "collab \<Rightarrow> reader \<Rightarrow> bool" where
  "legic_prng_get_bit c s = keystream c (seed (lfsr s)) (pos (lfsr s))"

section \<open>Frame handling\<close>

text \<open>
  Modelled from the spec: \<^verbatim>\<open>FpgaWriteConfWord\<close> selects the mode of the front end; the
  mode is recorded.
\<close>

definition FpgaWriteConfWord :: "fpga_mode \<Rightarrow> reader \<Rightarrow> reader" where
  "FpgaWriteConfWord m s = emit (Conf m) s"

text \<open>
  The loop of \<^verbatim>\<open>tx_frame\<close>: \<^verbatim>\<open>bool bit = (frame >> i) & 0x01\<close> is bit \<open>i\<close> of the frame,
  and \<^verbatim>\<open>bit ^ legic_prng_get_bit()\<close> is sent. (For \<open>i \<ge> 32\<close> the C shift is undefined;
  no caller asks for a frame longer than 12 bits.)
\<close>

function tx_frame_loop :: "collab \<Rightarrow> 32 word \<Rightarrow> nat \<Rightarrow> nat \<Rightarrow> reader \<Rightarrow> reader option" where
  "tx_frame_loop c frame len i s =
     (if i < len then
        do {
          s1 \<leftarrow> tx_bit (bit frame i \<noteq> legic_prng_get_bit c s) s;
          tx_frame_loop c frame len (Suc i) (legic_prng_forward 1 s1)
        }
      else Some s)"
  by pat_completeness auto
termination
  by (relation "measure (\<lambda>(c, frame, len, i, s). len - i)") auto

declare tx_frame_loop.simps [simp del]

definition tx_frame :: "collab \<Rightarrow> 32 word \<Rightarrow> 8 word \<Rightarrow> reader \<Rightarrow> reader option" where
  "tx_frame c frame len s =
     do {
       s1 \<leftarrow> tx_frame_loop c frame (unat len) 0 (FpgaWriteConfWord HF_READER_TX s);
       let (ts, s2) = stamp s1;
       s3 \<leftarrow> busy_wait ts RWD_TIME_PAUSE (LOW s2);
       Some (HIGH s3)
     }"

text \<open>
  The loop of \<^verbatim>\<open>rx_frame\<close>: \<^verbatim>\<open>frame |= (rx_bit() ^ legic_prng_get_bit()) << i\<close>.
\<close>

function rx_frame_loop ::
  "collab \<Rightarrow> nat \<Rightarrow> nat \<Rightarrow> 32 word \<Rightarrow> reader \<Rightarrow> (32 word \<times> reader) option" where
  "rx_frame_loop c len i frame s =
     (if i < len then
        do {
          (b, s1) \<leftarrow> rx_bit s;
          rx_frame_loop c len (Suc i)
            (frame OR push_bit i (of_bool (b \<noteq> legic_prng_get_bit c s1)))
            (legic_prng_forward 1 s1)
        }
      else Some (frame, s))"
  by pat_completeness auto
termination
  by (relation "measure (\<lambda>(c, len, i, frame, s). len - i)") auto

declare rx_frame_loop.simps [simp del]

definition rx_frame :: "collab \<Rightarrow> 8 word \<Rightarrow> reader \<Rightarrow> (32 word \<times> reader) option" where
  "rx_frame c len s =
     rx_frame_loop c (unat len) 0 0
       (FpgaWriteConfWord HF_READER_RX_XCORR_848_KHZ_QUARTER s)"

section \<open>Legic Reader\<close>

definition init_card :: "8 word \<Rightarrow> legic_card_select_t \<Rightarrow> int \<times> legic_card_select_t" where
  "init_card cardtype p_card =
     (let p = p_card\<lparr>tagtype := cardtype\<rparr>
      in if tagtype p = 0x0d then (0, p\<lparr>cmdsize := 6, addrsize := 5, cardsize := 22\<rparr>)
         else if tagtype p = 0x1d then (0, p\<lparr>cmdsize := 9, addrsize := 8, cardsize := 256\<rparr>)
         else if tagtype p = 0x3d then (0, p\<lparr>cmdsize := 11, addrsize := 10, cardsize := 1024\<rparr>)
         else (2, p\<lparr>cmdsize := 0, addrsize := 0, cardsize := 0\<rparr>))"

text \<open>
  \<^verbatim>\<open>init_reader\<close>: the set-up calls in order, the output line claimed and driven high,
  the first \<^verbatim>\<open>LEGIC_CARD_MEMSIZE\<close> bytes of the card memory cleared
  (\<^verbatim>\<open>BigBuf_get_EM_addr()\<close> is the address of a static buffer, never null).
\<close>

definition init_reader :: "bool \<Rightarrow> reader \<Rightarrow> reader" where
  "init_reader clear_mem s =
     (let s1 = emit (Sys ''FpgaDownloadAndGo'') s;
          s2 = FpgaWriteConfWord HF_READER_RX_XCORR_848_KHZ_QUARTER s1;
          s3 = emit (Sys ''SetAdcMuxFor'') s2;
          s4 = emit (Sys ''FpgaSetupSsc'') s3;
          s5 = HIGH s4;
          s6 = s5\<lparr>legic_mem := (\<lambda>a. if a < LEGIC_CARD_MEMSIZE then 0 else legic_mem s5 a)\<rparr>;
          s7 = emit (Sys ''clear_trace'') s6;
          s8 = emit (Sys ''set_tracing'') s7;
          s9 = emit (Sys ''crc_init'') s8
      in emit (Sys ''StartCountUS'') s9)"

text \<open>
  The calibration loop of \<^verbatim>\<open>setup_phase_reader\<close>, which ends only when a timer reading
  reaches the deadline and blocks when the samples stop arriving:
  \<^verbatim>\<open>do { sample = sample_power(); if (sample > input_threshold) input_threshold = sample; }
  while (GetCountUS() < ts + 5000);\<close>
\<close>

partial_function (option) calibrate :: "32 word \<Rightarrow> reader \<Rightarrow> reader option" where
  "calibrate ts s =
     (case sample_power s of
        None \<Rightarrow> None
      | Some (sample, s1) \<Rightarrow>
          (case GetCountUS
                  (if sample > input_threshold s1 then s1\<lparr>input_threshold := sample\<rparr> else s1) of
             (t, s2) \<Rightarrow> if t < ts + 5000 then calibrate ts s2 else Some s2))"

declare calibrate.simps [code]

text \<open>
  \<^verbatim>\<open>setup_phase_reader\<close> in its two parts. First the carrier is on for 5 ms and
  the time is used to set the threshold (from \<^verbatim>\<open>ts = GetCountUS()\<close> to
  \<^verbatim>\<open>input_threshold <<= 1\<close>).
\<close>

definition calibrate_threshold :: "reader \<Rightarrow> reader option" where
  "calibrate_threshold s =
     (let (ts, s1) = stamp s;
          s2 = s1\<lparr>input_threshold := 8\<rparr>
      in do {
           s3 \<leftarrow> calibrate ts s2;
           let s4 = emit (Until 5000) s3;
           Some (s4\<lparr>input_threshold := 2 * input_threshold s4\<rparr>)
         })"

text \<open>
  Then the three-way handshake (from \<^verbatim>\<open>legic_prng_init(0)\<close> to the end). The received
  card type is a 6-bit value, so the \<^verbatim>\<open>int32_t\<close> it is kept in equals the frame.
\<close>

definition handshake :: "collab \<Rightarrow> 8 word \<Rightarrow> reader \<Rightarrow> (32 word \<times> reader) option" where
  "handshake c iv s =
     (let s1 = legic_prng_init 0 s
      in do {
           s2 \<leftarrow> tx_frame c (ucast iv) 7 s1;
           let (ts, s3) = stamp s2;
           let s4 = legic_prng_init iv s3;
           let s5 = legic_prng_forward 2 s4;
           s6 \<leftarrow> busy_wait ts TAG_FRAME_WAIT s5;
           (card_type, s7) \<leftarrow> rx_frame c 6 s6;
           s8 \<leftarrow> (if card_type = 0x0D then tx_frame c 0x19 6 s7
                  else if card_type = 0x1D \<or> card_type = 0x3D then tx_frame c 0x39 6 s7
                  else Some s7);
           Some (card_type, s8)
         })"

definition setup_phase_reader :: "collab \<Rightarrow> 8 word \<Rightarrow> reader \<Rightarrow> (32 word \<times> reader) option" where
  "setup_phase_reader c iv s =
     do {
       s1 \<leftarrow> calibrate_threshold s;
       handshake c iv s1
     }"

text \<open>
  Modelled from the spec: \<^verbatim>\<open>LEGIC_READ\<close>, the READ opcode, is defined in legic.h, which
  is not among the sources; the acknowledgment comments of \<^verbatim>\<open>setup_phase_reader\<close> give
  the read command bit as \<^verbatim>\<open>0x01\<close>.
\<close>

definition LEGIC_READ :: "16 word" where "LEGIC_READ = 0x01"

text \<open>
  \<^verbatim>\<open>calc_crc4\<close>: the CRC collaborator applied to \<^verbatim>\<open>(value << cmd_sz) | cmd\<close> over
  \<^verbatim>\<open>8 + cmd_sz\<close> bits. The value is passed as \<^verbatim>\<open>uint32_t\<close>. (For a width of 24 and more
  the C shift overflows; the callers pass 6, 9 or 11.)
\<close>

definition calc_crc4 :: "collab \<Rightarrow> 16 word \<Rightarrow> 8 word \<Rightarrow> 8 word \<Rightarrow> 8 word" where
  "calc_crc4 c cmd cmd_sz val =
     crc4 c (push_bit (unat cmd_sz) (ucast val) OR ucast cmd) (8 + unat cmd_sz)"

text \<open>
  Modelled from the spec: the macro \<^verbatim>\<open>BYTEx\<close> is not among the sources. The response is
  8 data bits followed by 4 CRC bits, and \<^verbatim>\<open>read_byte\<close> takes the data from
  \<^verbatim>\<open>BYTEx(frame, 0)\<close> and the CRC from \<^verbatim>\<open>BYTEx(frame, 1)\<close>: byte \<open>n\<close> of the value.
\<close>

definition BYTEx :: "32 word \<Rightarrow> nat \<Rightarrow> 8 word" where
  "BYTEx x n = ucast (drop_bit (n * 8) x AND 0xff)"

text \<open>\<^verbatim>\<open>read_byte\<close> returns an \<^verbatim>\<open>int16_t\<close>: the byte read, or \<open>-1\<close>.\<close>

definition read_byte :: "collab \<Rightarrow> 16 word \<Rightarrow> 8 word \<Rightarrow> reader \<Rightarrow> (int \<times> reader) option" where
  "read_byte c index cmd_sz s =
     (let cmd = push_bit 1 index OR LEGIC_READ
      in do {
           s1 \<leftarrow> tx_frame c (ucast cmd) cmd_sz s;
           (frame, s2) \<leftarrow> rx_frame c 12 s1;
           let byte = BYTEx frame 0;
           let crc = BYTEx frame 1;
           let calc_crc = calc_crc4 c cmd cmd_sz byte;
           if calc_crc \<noteq> crc then
             Some (- 1, Dbprintf ''!!! crc mismatch: %x != %x !!!'' [uint calc_crc, uint crc] s2)
           else Some (uint byte, s2)
         })"

section \<open>Command line interface\<close>

text \<open>
  Modelled from the spec: \<^verbatim>\<open>cmd_send\<close> reports to the host and \<^verbatim>\<open>switch_off\<close> ends the
  session; both calls are recorded.
\<close>

definition cmd_send :: "nat \<Rightarrow> nat \<Rightarrow> nat \<Rightarrow> 8 word list \<Rightarrow> reader \<Rightarrow> reader" where
  "cmd_send a0 a1 a2 d s =
     s\<lparr>host := host s @ [\<lparr>arg0 = a0, arg1 = a1, arg2 = a2, payload = d\<rparr>]\<rparr>"

definition switch_off :: "reader \<Rightarrow> reader" where
  "switch_off s = emit (Sys ''switch_off'') s"

text \<open>
  The read loop of \<^verbatim>\<open>LegicRfReader\<close>. The \<^verbatim>\<open>uint16_t\<close> counter \<open>i\<close> stays below \<open>len\<close>,
  so it is a \<open>nat\<close> here; \<^verbatim>\<open>offset + i\<close> is cut to the 16 bits of \<^verbatim>\<open>read_byte\<close>'s
  parameter. The result \<open>False\<close> is the jump to \<^verbatim>\<open>OUT\<close> after the failure was sent.
\<close>

function read_loop ::
  "collab \<Rightarrow> 16 word \<Rightarrow> nat \<Rightarrow> nat \<Rightarrow> reader \<Rightarrow> (bool \<times> reader) option" where
  "read_loop c offset len i s =
     (if i < len then
        do {
          (byte, s1) \<leftarrow> read_byte c (offset + of_nat i) (cmdsize (card s)) s;
          if byte = - 1 then Some (False, cmd_send 0 0 0 [] s1)
          else read_loop c offset len (Suc i)
                 (s1\<lparr>legic_mem := (legic_mem s1)(i := word_of_int byte)\<rparr>)
        }
      else Some (True, s))"
  by pat_completeness auto
termination
  by (relation "measure (\<lambda>(c, offset, len, i, s). len - i)") auto

declare read_loop.simps [simp del]

definition LegicRfReader :: "collab \<Rightarrow> 16 word \<Rightarrow> 16 word \<Rightarrow> 8 word \<Rightarrow> reader \<Rightarrow> reader option" where
  "LegicRfReader c offset len iv s =
     do {
       (ct, s1) \<leftarrow> setup_phase_reader c iv (init_reader False s);
       let card_type = (ucast ct :: 8 word);
       let (rc, cd) = init_card card_type (card s1);
       let s2 = s1\<lparr>card := cd\<rparr>;
       if rc \<noteq> 0 then Some (switch_off (cmd_send 0 0 0 [] s2))
       else do {
         let len = (if unat len + unat offset > unat (cardsize (card s2))
                    then cardsize (card s2) - offset else len);
         (ok, s3) \<leftarrow> read_loop c offset (unat len) 0 s2;
         if ok then
           Some (switch_off
                  (cmd_send 1 (unat len) 0 (map (legic_mem s3) [0..<unat len]) s3))
         else Some (switch_off s3)
       }
     }"

section \<open>Notions used to state the properties\<close>

text \<open>
  The timer is live when from every reading on each value is reached again: the
  free-running counter, read faster than it counts, passes every deadline.
\<close>

definition live :: "(nat \<Rightarrow> 32 word) \<Rightarrow> bool" where
  "live tm \<longleftrightarrow> (\<forall>n d. \<exists>m\<ge>n. d \<le> tm m)"

text \<open>The amplitudes of a sequence of received bytes, two bytes per sample.\<close>

fun amplitudes :: "8 word list \<Rightarrow> int list" where
  "amplitudes (qb # ib # bs) = amplitude qb ib # amplitudes bs"
| "amplitudes bs = []"

text \<open>
  What \<^verbatim>\<open>tx_bit\<close> does to the output line for one bit, and \<^verbatim>\<open>tx_frame\<close> for the bits
  of a frame: the mode word, the bits, the pause that ends the frame.
\<close>

definition bit_wave :: "bool \<Rightarrow> event list" where
  "bit_wave b =
     [Stamp, Pin False, Until RWD_TIME_PAUSE, Pin True,
      Until (if b then RWD_TIME_1 else RWD_TIME_0)]"

definition frame_wave :: "bool list \<Rightarrow> event list" where
  "frame_wave bits =
     Conf HF_READER_TX # concat (map bit_wave bits) @
     [Stamp, Pin False, Until RWD_TIME_PAUSE, Pin True]"

text \<open>
  The first \<open>n\<close> bits of a frame, each combined with the keystream bit of its position,
  starting from the keystream state \<open>g\<close>.
\<close>

definition cipher_bits :: "collab \<Rightarrow> legic_prng \<Rightarrow> 32 word \<Rightarrow> nat \<Rightarrow> bool list" where
  "cipher_bits c g frame n =
     map (\<lambda>j. bit frame j \<noteq> keystream c (seed g) (pos g + j)) [0..<n]"

text \<open>
  The demodulator's decision on the next ten bytes (five samples) for a threshold, and
  the frame value that \<open>n\<close> bit periods give under the keystream from the state \<open>g\<close>,
  first bit lowest.
\<close>

definition decision :: "int \<Rightarrow> 8 word list \<Rightarrow> bool" where
  "decision t bs \<longleftrightarrow> amplitude (bs ! 4) (bs ! 5) > t \<and> amplitude (bs ! 6) (bs ! 7) > t"

definition rx_value :: "collab \<Rightarrow> legic_prng \<Rightarrow> int \<Rightarrow> 8 word list \<Rightarrow> nat \<Rightarrow> 32 word" where
  "rx_value c g t bs n =
     horner_sum of_bool 2
       (map (\<lambda>j. decision t (drop (10 * j) bs) \<noteq> keystream c (seed g) (pos g + j)) [0..<n])"

text \<open>
  A bit channel without drift: every bit period brings ten bytes, and the third and
  fourth sample are both above the threshold for a 1 and both below for a 0.
\<close>

fun clean_channel :: "int \<Rightarrow> bool list \<Rightarrow> 8 word list \<Rightarrow> bool" where
  "clean_channel t [] bs = True"
| "clean_channel t (w # ws) bs =
     (10 \<le> length bs \<and>
      (let p2 = amplitude (bs ! 4) (bs ! 5); p3 = amplitude (bs ! 6) (bs ! 7)
       in if w then p2 > t \<and> p3 > t else p2 < t \<and> p3 < t) \<and>
      clean_channel t ws (drop 10 bs))"

text \<open>
  A bulk read that starts in the state \<open>s\<close> at the address \<open>addr\<close>, while no read has
  failed: the 12-bit frame that answers read number \<open>k\<close> (each read moves the keystream by
  the command width and 12, and takes 120 bytes), whether its CRC agrees with the one
  computed for the command and the data byte, and what read number \<open>k\<close> puts on the line.
\<close>

definition response :: "collab \<Rightarrow> reader \<Rightarrow> nat \<Rightarrow> 32 word" where
  "response c s k =
     (let w = unat (cmdsize (card s))
      in rx_value c ((lfsr s)\<lparr>pos := pos (lfsr s) + k * (w + 12) + w\<rparr>)
           (input_threshold s) (drop (120 * k) (ssc_rx s)) 12)"

definition crc_ok :: "collab \<Rightarrow> 16 word \<Rightarrow> reader \<Rightarrow> nat \<Rightarrow> bool" where
  "crc_ok c addr s k \<longleftrightarrow>
     calc_crc4 c (push_bit 1 (addr + of_nat k) OR LEGIC_READ) (cmdsize (card s))
       (ucast (response c s k)) = ucast (drop_bit 8 (response c s k))"

definition read_wave :: "collab \<Rightarrow> 16 word \<Rightarrow> reader \<Rightarrow> nat \<Rightarrow> event list" where
  "read_wave c addr s k =
     (let w = unat (cmdsize (card s))
      in frame_wave (cipher_bits c ((lfsr s)\<lparr>pos := pos (lfsr s) + k * (w + 12)\<rparr>)
            (ucast (push_bit 1 (addr + of_nat k) OR LEGIC_READ)) w) @
         [Conf HF_READER_RX_XCORR_848_KHZ_QUARTER])"

text \<open>
  What the radio layers leave alone: the timer's readings, the selected card, the card
  memory and what was sent to the host.
\<close>

definition kept :: "reader \<Rightarrow> reader \<Rightarrow> bool" where
  "kept s s' \<longleftrightarrow>
     timer s' = timer s \<and> card s' = card s \<and> legic_mem s' = legic_mem s \<and> host s' = host s"

text \<open>The acknowledgment of a failed operation: \<^verbatim>\<open>cmd_send(CMD_ACK, 0, 0, 0, 0, 0)\<close>.\<close>

definition failure_ack :: host_ack where
  "failure_ack = \<lparr>arg0 = 0, arg1 = 0, arg2 = 0, payload = []\<rparr>"

text \<open>
  A reader at rest on a test bench: the given bytes will arrive, the timer is 5001
  microseconds further at each reading, the threshold is as given.
\<close>

definition idle_card :: legic_card_select_t where
  "idle_card = \<lparr>tagtype = 0, cmdsize = 0, addrsize = 0, cardsize = 0, uid = [0, 0, 0, 0]\<rparr>"

definition bench :: "8 word list \<Rightarrow> int \<Rightarrow> reader" where
  "bench bytes thr =
     \<lparr>ssc_rx = bytes, timer = (\<lambda>n. of_nat n * 5001), reads = 0, lfsr = \<lparr>seed = 0, pos = 0\<rparr>,
      input_threshold = thr, card = idle_card, legic_mem = (\<lambda>a. 0),
      wire = [], dbg = [], host = []\<rparr>"

text \<open>
  What a channel without drift delivers for one bit (five samples, the third and fourth
  at full amplitude for a 1 and silent for a 0) and for a sequence of bits.
\<close>

definition bit_bytes :: "bool \<Rightarrow> 8 word list" where
  "bit_bytes b = (if b then [0, 0, 0, 0, 127, 0, 127, 0, 0, 0] else [0, 0, 0, 0, 0, 0, 0, 0, 0, 0])"

definition channel :: "bool list \<Rightarrow> 8 word list" where
  "channel bits = concat (map bit_bytes bits)"

text \<open>
  What the bench feeds a reader that meets a card of type 0x0d: one silent sample for the
  calibration, then the six bits of the card type, first bit first.
\<close>

definition card_0d_bytes :: "8 word list" where
  "card_0d_bytes = [0, 0] @ channel [True, False, True, True, False, False]"

text \<open>
  Answers of a card to reads, as the bench delivers them under its all-zero keystream:
  twelve bits each, data byte first, then the CRC nibble. With the bench's CRC (the low
  four bits of the value, here those of the command) the first list holds two good
  answers to reads from address 0 (data 0x81 with CRC 1, data 0 with CRC 3) and a bad one
  (CRC 0 where 5 is due); the second a good answer to a read of address 25 (CRC 3) and a
  bad one.
\<close>

definition answers_from_0 :: "8 word list" where
  "answers_from_0 =
     channel [True, False, False, False, False, False, False, True,  True, False, False, False] @
     channel [False, False, False, False, False, False, False, False,  True, True, False, False] @
     channel [False, False, False, False, False, False, False, False,  False, False, False, False]"

definition answers_from_25 :: "8 word list" where
  "answers_from_25 =
     channel [False, False, False, False, False, False, False, False,  True, True, False, False] @
     channel [False, False, False, False, False, False, False, False,  False, False, False, False]"

text \<open>
  Collaborators for the bench: a keystream that is 0 everywhere (what \<^verbatim>\<open>legic_prng_init(0)\<close>
  is meant to give) and a CRC that is the low four bits of the value, whatever the width.
\<close>

definition bench_collab :: collab where
  "bench_collab = \<lparr>keystream = (\<lambda>sd p. False), crc4 = (\<lambda>v w. ucast v AND 0x0f)\<rparr>"

text \<open>
  A wait of \<open>d\<close> microseconds that starts with reading number \<open>n\<close> of the timer and ends
  with reading number \<open>w\<close>: every reading in between is below the deadline (the sum in
  \<^verbatim>\<open>uint32_t\<close>, as the source computes it), and reading \<open>w\<close> is the first that is not.
\<close>

definition waited :: "(nat \<Rightarrow> 32 word) \<Rightarrow> nat \<Rightarrow> 32 word \<Rightarrow> nat \<Rightarrow> bool" where
  "waited tm n d w \<longleftrightarrow> n < w \<and> (\<forall>k\<in>{Suc n..<w}. tm k < tm n + d) \<and> \<not> tm w < tm n + d"

text \<open>
  The stages of a handshake that starts in the state \<open>s\<close>: the state in which
  \<^verbatim>\<open>tx_frame(iv, 7)\<close> returns, after \<open>n\<close> readings of the timer; the state in which
  \<^verbatim>\<open>rx_frame(6)\<close> is entered, the wait having ended with reading number \<open>w\<close>; and the
  state in which it returns.
\<close>

definition iv_sent :: "collab \<Rightarrow> 8 word \<Rightarrow> reader \<Rightarrow> nat \<Rightarrow> reader" where
  "iv_sent c iv s n =
     s\<lparr>reads := n,
       wire := wire s @ frame_wave (cipher_bits c \<lparr>seed = 0, pos = 0\<rparr> (ucast iv) 7),
       lfsr := \<lparr>seed = 0, pos = 7\<rparr>\<rparr>"

definition listening :: "collab \<Rightarrow> 8 word \<Rightarrow> reader \<Rightarrow> nat \<Rightarrow> reader" where
  "listening c iv s w =
     s\<lparr>reads := Suc w,
       wire := wire s @ frame_wave (cipher_bits c \<lparr>seed = 0, pos = 0\<rparr> (ucast iv) 7) @
               [Stamp, Until TAG_FRAME_WAIT],
       lfsr := \<lparr>seed = iv, pos = 2\<rparr>\<rparr>"

definition type_heard :: "collab \<Rightarrow> 8 word \<Rightarrow> reader \<Rightarrow> nat \<Rightarrow> (string \<times> int list) list \<Rightarrow> reader" where
  "type_heard c iv s w m =
     s\<lparr>reads := Suc w, ssc_rx := drop 60 (ssc_rx s), dbg := dbg s @ m,
       wire := wire s @ frame_wave (cipher_bits c \<lparr>seed = 0, pos = 0\<rparr> (ucast iv) 7) @
               [Stamp, Until TAG_FRAME_WAIT, Conf HF_READER_RX_XCORR_848_KHZ_QUARTER],
       lfsr := \<lparr>seed = iv, pos = 8\<rparr>\<rparr>"

section \<open>Properties\<close>

subsection \<open>Demodulator\<close>

lemma amplitude_range: "0 \<le> amplitude qb ib \<and> amplitude qb ib \<le> 192"
proof -
  have q: "\<bar>sint qb\<bar> \<le> 128"
    using sint_ge [of qb] sint_lt [of qb] by simp
  have i: "\<bar>sint ib\<bar> \<le> 128"
    using sint_ge [of ib] sint_lt [of ib] by simp
  show ?thesis
    using q i by (auto simp: amplitude_def Let_def max_def min_def)
qed

lemma sample_powers_5:
  "ssc_rx s = q0 # i0 # q1 # i1 # q2 # i2 # q3 # i3 # q4 # i4 # rest \<Longrightarrow>
   sample_powers 5 s =
     Some ([amplitude q0 i0, amplitude q1 i1, amplitude q2 i2, amplitude q3 i3, amplitude q4 i4],
           s\<lparr>ssc_rx := rest\<rparr>)"
  by (simp add: eval_nat_numeral sample_power_def rx_byte_from_fpga_def)

lemma rx_bit_eval:
  assumes "ssc_rx s = q0 # i0 # q1 # i1 # q2 # i2 # q3 # i3 # q4 # i4 # rest"
  shows "rx_bit s =
     (let p2 = amplitude q2 i2; p3 = amplitude q3 i3; t = input_threshold s;
          s1 = s\<lparr>ssc_rx := rest\<rparr>
      in if p2 > t \<and> p3 > t then Some (True, s1)
         else if p2 < t \<and> p3 < t then Some (False, s1)
         else Some (False, Dbprintf ''rx_bit failed %i vs %i (threshold %i)'' [p2, p3, t] s1))"
  by (simp add: rx_bit_def sample_powers_5 [OF assms] Let_def)

text \<open>
  C8. The bit demodulator takes five amplitude samples and decides on the third and the
  fourth: both above the threshold give 1, both below give 0; any other pair gives 0 as
  well, and only then a debug message with the two samples and the threshold is logged.
  The call returns in all three cases.
\<close>

theorem rx_bit_decision:
  assumes "ssc_rx s = q0 # i0 # q1 # i1 # q2 # i2 # q3 # i3 # q4 # i4 # rest"
    and "p2 = amplitude q2 i2" and "p3 = amplitude q3 i3" and "t = input_threshold s"
  shows "(p2 > t \<and> p3 > t \<longrightarrow> rx_bit s = Some (True, s\<lparr>ssc_rx := rest\<rparr>)) \<and>
         (p2 < t \<and> p3 < t \<longrightarrow> rx_bit s = Some (False, s\<lparr>ssc_rx := rest\<rparr>)) \<and>
         (\<not> (p2 > t \<and> p3 > t) \<and> \<not> (p2 < t \<and> p3 < t) \<longrightarrow>
            rx_bit s = Some (False, s\<lparr>ssc_rx := rest,
              dbg := dbg s @ [(''rx_bit failed %i vs %i (threshold %i)'', [p2, p3, t])]\<rparr>))"
  using assms(2-4) by (auto simp: rx_bit_eval [OF assms(1)] Let_def Dbprintf_def)

text \<open>
  C10. The comparisons are strict both ways: when the third or the fourth sample equals
  the threshold, the demodulator takes the ambiguous branch, whatever the other sample
  is: it returns 0 and logs the pair.
\<close>

theorem rx_bit_sample_equal_threshold:
  assumes "ssc_rx s = q0 # i0 # q1 # i1 # q2 # i2 # q3 # i3 # q4 # i4 # rest"
    and "amplitude q2 i2 = input_threshold s \<or> amplitude q3 i3 = input_threshold s"
  shows "rx_bit s = Some (False, s\<lparr>ssc_rx := rest,
           dbg := dbg s @ [(''rx_bit failed %i vs %i (threshold %i)'',
                            [amplitude q2 i2, amplitude q3 i3, input_threshold s])]\<rparr>)"
  using assms(2) by (auto simp: rx_bit_eval [OF assms(1)] Let_def Dbprintf_def)

subsection \<open>Card type registry\<close>

text \<open>
  C5. The registry maps the three supported card-type codes to their geometry
  (0x0d: command width 6, address width 5, memory size 22; 0x1d: 9, 8, 256;
  0x3d: 11, 10, 1024) with result 0, and returns the failure result 2 for every other
  code; the result is 0 for the three supported codes only.
\<close>

theorem init_card_table:
  "init_card 0x0d p = (0, p\<lparr>tagtype := 0x0d, cmdsize := 6, addrsize := 5, cardsize := 22\<rparr>) \<and>
   init_card 0x1d p = (0, p\<lparr>tagtype := 0x1d, cmdsize := 9, addrsize := 8, cardsize := 256\<rparr>) \<and>
   init_card 0x3d p = (0, p\<lparr>tagtype := 0x3d, cmdsize := 11, addrsize := 10, cardsize := 1024\<rparr>) \<and>
   (c \<noteq> 0x0d \<and> c \<noteq> 0x1d \<and> c \<noteq> 0x3d \<longrightarrow> fst (init_card c p) = 2) \<and>
   (fst (init_card c p) = 0 \<longleftrightarrow> c = 0x0d \<or> c = 0x1d \<or> c = 0x3d)"
  by (simp add: init_card_def Let_def)

text \<open>
  C6, as the code has it. For an unrecognised tag-type code the lookup fails with
  result 2 and zeroes the command width, the address width and the card size; the tag
  type field holds the unrecognised code and the UID is left as it was.
\<close>

theorem init_card_unknown:
  assumes "c \<noteq> 0x0d" and "c \<noteq> 0x1d" and "c \<noteq> 0x3d"
  shows "init_card c p = (2, p\<lparr>tagtype := c, cmdsize := 0, addrsize := 0, cardsize := 0\<rparr>) \<and>
         uid (snd (init_card c p)) = uid p"
  using assms by (simp add: init_card_def)

subsection \<open>Threshold calibration\<close>

lemma sample_power_Cons:
  "ssc_rx s = qb # ib # rest \<Longrightarrow> sample_power s = Some (amplitude qb ib, s\<lparr>ssc_rx := rest\<rparr>)"
  by (simp add: sample_power_def rx_byte_from_fpga_def)

lemma calibrate_run:
  assumes "\<forall>j<k. timer s (reads s + j) < ts + 5000"
    and "\<not> timer s (reads s + k) < ts + 5000"
    and "2 * Suc k \<le> length (ssc_rx s)"
  shows "calibrate ts s =
     Some (s\<lparr>ssc_rx := drop (2 * Suc k) (ssc_rx s), reads := reads s + Suc k,
             input_threshold :=
               foldl max (input_threshold s) (take (Suc k) (amplitudes (ssc_rx s)))\<rparr>)"
  using assms
proof (induction k arbitrary: s)
  case 0
  from "0.prems"(3) obtain qb ib rest where bs: "ssc_rx s = qb # ib # rest"
    by (cases "ssc_rx s" rule: amplitudes.cases) auto
  show ?case
    using "0.prems"(2)
    by (subst calibrate.simps)
      (simp add: sample_power_Cons [OF bs] bs GetCountUS_def max_def)
next
  case (Suc k)
  from Suc.prems(3) obtain qb ib rest where bs: "ssc_rx s = qb # ib # rest"
    by (cases "ssc_rx s" rule: amplitudes.cases) auto
  define s2 where "s2 = (if amplitude qb ib > input_threshold s
       then s\<lparr>ssc_rx := rest, input_threshold := amplitude qb ib\<rparr>
       else s\<lparr>ssc_rx := rest\<rparr>)\<lparr>reads := Suc (reads s)\<rparr>"
  have s2: "timer s2 = timer s" "reads s2 = Suc (reads s)" "ssc_rx s2 = rest"
    "input_threshold s2 = max (input_threshold s) (amplitude qb ib)"
    by (simp_all add: s2_def max_def)
  have first: "timer s (reads s) < ts + 5000"
    using Suc.prems(1) [rule_format, of 0] by simp
  have step: "calibrate ts s = calibrate ts s2"
    using first
    by (subst calibrate.simps)
      (simp add: sample_power_Cons [OF bs] GetCountUS_def s2_def)
  have a: "\<forall>j<k. timer s2 (reads s2 + j) < ts + 5000"
    using Suc.prems(1) by (auto simp: s2 dest: spec [where x = "Suc j" for j])
  have b: "\<not> timer s2 (reads s2 + k) < ts + 5000"
    using Suc.prems(2) by (simp add: s2)
  have c: "2 * Suc k \<le> length (ssc_rx s2)"
    using Suc.prems(3) by (simp add: s2 bs)
  show ?case
    unfolding step Suc.IH [OF a b c]
    by (simp add: s2 bs) (simp add: s2_def)
qed

lemma foldl_max_Max:
  "xs \<noteq> [] \<Longrightarrow> foldl max (t::int) xs = max t (Max (set xs))"
proof (induction xs arbitrary: t)
  case Nil
  then show ?case by simp
next
  case (Cons x xs)
  show ?case
  proof (cases "xs = []")
    case True
    then show ?thesis by simp
  next
    case False
    then show ?thesis
      using Cons.IH [of "max t x"] by (simp add: max.assoc)
  qed
qed

lemma length_amplitudes: "length (amplitudes bs) = length bs div 2"
  by (induction bs rule: amplitudes.induct) auto

lemma amplitudes_range: "x \<in> set (amplitudes bs) \<Longrightarrow> 0 \<le> x \<and> x \<le> 192"
  by (induction bs rule: amplitudes.induct) (use amplitude_range in auto)

lemma calibrate_threshold_run:
  assumes "\<forall>j<k. timer s (Suc (reads s) + j) < timer s (reads s) + 5000"
    and "\<not> timer s (Suc (reads s) + k) < timer s (reads s) + 5000"
    and "2 * Suc k \<le> length (ssc_rx s)"
    and "xs = take (Suc k) (amplitudes (ssc_rx s))"
  shows "calibrate_threshold s =
           Some (s\<lparr>ssc_rx := drop (2 * Suc k) (ssc_rx s), reads := reads s + k + 2,
                   input_threshold := 2 * max (Max (set xs)) 8,
                   wire := wire s @ [Stamp, Until 5000]\<rparr>)"
proof -
  define s2 where "s2 = s\<lparr>reads := Suc (reads s), wire := wire s @ [Stamp], input_threshold := 8\<rparr>"
  have s2: "timer s2 = timer s" "reads s2 = Suc (reads s)" "ssc_rx s2 = ssc_rx s"
    "input_threshold s2 = 8"
    by (simp_all add: s2_def)
  have ne: "xs \<noteq> []"
    using assms(3,4) by (simp add: length_amplitudes flip: length_0_conv)
  have run: "calibrate (timer s (reads s)) s2 =
     Some (s2\<lparr>ssc_rx := drop (2 * Suc k) (ssc_rx s2), reads := reads s2 + Suc k,
             input_threshold :=
               foldl max (input_threshold s2) (take (Suc k) (amplitudes (ssc_rx s2)))\<rparr>)"
    by (rule calibrate_run) (use assms(1-3) in \<open>simp_all add: s2\<close>)
  show ?thesis
    using run foldl_max_Max [OF ne, of 8]
    by (simp add: calibrate_threshold_def stamp_def GetCountUS_def emit_def s2 assms(4) max.commute
        flip: s2_def) (simp add: s2_def)
qed

lemma calibrate_range:
  assumes "calibrate_threshold s = Some s'"
    and "\<forall>j<k. timer s (Suc (reads s) + j) < timer s (reads s) + 5000"
    and "\<not> timer s (Suc (reads s) + k) < timer s (reads s) + 5000"
    and "2 * Suc k \<le> length (ssc_rx s)"
  shows "16 \<le> input_threshold s' \<and> input_threshold s' \<le> 384"
proof -
  define xs where "xs = take (Suc k) (amplitudes (ssc_rx s))"
  have ne: "xs \<noteq> []"
    using assms(4) by (simp add: xs_def length_amplitudes flip: length_0_conv)
  then have "Max (set xs) \<in> set xs"
    by (intro Max_in) simp_all
  then have "Max (set xs) \<in> set (amplitudes (ssc_rx s))"
    unfolding xs_def by (rule in_set_takeD)
  then have "Max (set xs) \<le> 192"
    using amplitudes_range by blast
  moreover have "input_threshold s' = 2 * max (Max (set xs)) 8"
    using calibrate_threshold_run [OF assms(2-4) xs_def] assms(1) by auto
  ultimately show ?thesis by simp
qed

text \<open>
  C7. Let the calibration window take \<open>k + 1\<close> samples (the timer reading after each of
  the first \<open>k\<close> is before the 5000 microseconds, the next one is not), and let \<open>xs\<close> be
  those samples. Then the calibration returns and leaves the threshold at
  \<open>2 * max (Max xs) 8\<close>: twice the maximum when it is at least 8, and 16 when every sample
  is below 8.
\<close>

theorem calibrate_threshold_value:
  assumes "\<forall>j<k. timer s (Suc (reads s) + j) < timer s (reads s) + 5000"
    and "\<not> timer s (Suc (reads s) + k) < timer s (reads s) + 5000"
    and "2 * Suc k \<le> length (ssc_rx s)"
    and "xs = take (Suc k) (amplitudes (ssc_rx s))"
  shows "calibrate_threshold s =
           Some (s\<lparr>ssc_rx := drop (2 * Suc k) (ssc_rx s), reads := reads s + k + 2,
                   input_threshold := 2 * max (Max (set xs)) 8,
                   wire := wire s @ [Stamp, Until 5000]\<rparr>) \<and>
         (8 \<le> Max (set xs) \<longrightarrow>
            map_option input_threshold (calibrate_threshold s) = Some (2 * Max (set xs))) \<and>
         ((\<forall>x\<in>set xs. x < 8) \<longrightarrow>
            map_option input_threshold (calibrate_threshold s) = Some 16)"
proof -
  have ne: "xs \<noteq> []"
    using assms(3,4) by (simp add: length_amplitudes flip: length_0_conv)
  then have fin: "finite (set xs)" "set xs \<noteq> {}"
    by simp_all
  note res = calibrate_threshold_run [OF assms]
  moreover have "8 \<le> Max (set xs) \<longrightarrow>
      map_option input_threshold (calibrate_threshold s) = Some (2 * Max (set xs))"
    by (simp add: res)
  moreover have "(\<forall>x\<in>set xs. x < 8) \<longrightarrow>
      map_option input_threshold (calibrate_threshold s) = Some 16"
    using fin by (auto simp: res max_def)
  ultimately show ?thesis by blast
qed

subsection \<open>Timed waits and transmission\<close>

lemma busy_loop_run:
  assumes "\<forall>j<k. timer s (reads s + j) < d" and "\<not> timer s (reads s + k) < d"
  shows "busy_loop d s = Some (s\<lparr>reads := reads s + Suc k\<rparr>)"
  using assms
proof (induction k arbitrary: s)
  case 0
  then show ?case
    by (subst busy_loop.simps) (simp add: GetCountUS_def)
next
  case (Suc k)
  define s1 where "s1 = s\<lparr>reads := Suc (reads s)\<rparr>"
  have first: "timer s (reads s) < d"
    using Suc.prems(1) [rule_format, of 0] by simp
  have a: "\<forall>j<k. timer s1 (reads s1 + j) < d"
    using Suc.prems(1) by (auto simp: s1_def dest: spec [where x = "Suc j" for j])
  have b: "\<not> timer s1 (reads s1 + k) < d"
    using Suc.prems(2) by (simp add: s1_def)
  have "busy_loop d s = busy_loop d s1"
    using first by (subst busy_loop.simps) (simp add: GetCountUS_def s1_def)
  then show ?case
    by (simp add: Suc.IH [OF a b]) (simp add: s1_def)
qed

lemma live_first:
  assumes "live tm"
  shows "\<exists>k. (\<forall>j<k. tm (n + j) < d) \<and> \<not> tm (n + k) < d"
proof -
  from assms obtain m where m: "m \<ge> n" "d \<le> tm m"
    unfolding live_def by blast
  then have ex: "\<exists>k. \<not> tm (n + k) < d"
    by (intro exI [of _ "m - n"]) simp
  define k where "k = (LEAST k. \<not> tm (n + k) < d)"
  have "\<not> tm (n + k) < d"
    unfolding k_def using ex by (rule LeastI_ex)
  moreover have "\<forall>j<k. tm (n + j) < d"
    unfolding k_def using not_less_Least by blast
  ultimately show ?thesis by blast
qed

lemma busy_loop_live:
  assumes "live (timer s)"
  shows "\<exists>n>reads s. busy_loop d s = Some (s\<lparr>reads := n\<rparr>) \<and> \<not> timer s (n - 1) < d"
proof -
  from live_first [OF assms, of "reads s" d] obtain k
    where k: "\<forall>j<k. timer s (reads s + j) < d" "\<not> timer s (reads s + k) < d"
    by blast
  show ?thesis
    using busy_loop_run [OF k] k(2) by (intro exI [of _ "reads s + Suc k"]) simp
qed

lemma busy_wait_live:
  assumes "live (timer s)"
  shows "\<exists>n>reads s. busy_wait ts d s = Some (s\<lparr>reads := n, wire := wire s @ [Until d]\<rparr>) \<and>
           \<not> timer s (n - 1) < ts + d"
  using busy_loop_live [OF assms, of "ts + d"]
  by (auto simp: busy_wait_def emit_def)

lemma busy_loop_first:
  assumes "live (timer s)"
  shows "\<exists>w\<ge>reads s. busy_loop d s = Some (s\<lparr>reads := Suc w\<rparr>) \<and>
           (\<forall>k\<in>{reads s..<w}. timer s k < d) \<and> \<not> timer s w < d"
proof -
  from live_first [OF assms, of "reads s" d] obtain k
    where k: "\<forall>j<k. timer s (reads s + j) < d" "\<not> timer s (reads s + k) < d"
    by blast
  have "\<forall>i\<in>{reads s..<reads s + k}. timer s i < d"
  proof
    fix i assume "i \<in> {reads s..<reads s + k}"
    then have "i - reads s < k" "i = reads s + (i - reads s)" by auto
    with k(1) show "timer s i < d" by metis
  qed
  then show ?thesis
    using busy_loop_run [OF k] k(2) by (intro exI [of _ "reads s + k"]) simp
qed

lemma busy_wait_first:
  assumes "live (timer s)"
  shows "\<exists>w\<ge>reads s.
           busy_wait ts d s = Some (s\<lparr>reads := Suc w, wire := wire s @ [Until d]\<rparr>) \<and>
           (\<forall>k\<in>{reads s..<w}. timer s k < ts + d) \<and> \<not> timer s w < ts + d"
  using busy_loop_first [OF assms, of "ts + d"]
  by (auto simp: busy_wait_def emit_def)

lemma waited_elapsed:
  assumes "waited tm n d w" and "unat (tm n) + unat d < 2 ^ 32"
  shows "unat (tm n) + unat d \<le> unat (tm w)"
proof -
  have "unat (tm n + d) = unat (tm n) + unat d"
    using assms(2) by (simp add: unat_add_lem [THEN iffD1])
  moreover have "tm n + d \<le> tm w"
    using assms(1) by (simp add: waited_def not_less)
  ultimately show ?thesis
    by (simp add: word_le_nat_alt)
qed

lemma tx_bit_live:
  assumes "live (timer s)"
  shows "\<exists>n>reads s. tx_bit b s = Some (s\<lparr>reads := n, wire := wire s @ bit_wave b\<rparr>)"
proof -
  define s2 where "s2 = s\<lparr>reads := Suc (reads s), wire := wire s @ [Stamp, Pin False]\<rparr>"
  have s2: "timer s2 = timer s" "reads s2 = Suc (reads s)" by (simp_all add: s2_def)
  from busy_wait_live [of s2 "timer s (reads s)" RWD_TIME_PAUSE] assms obtain n3
    where n3: "n3 > reads s2"
      "busy_wait (timer s (reads s)) RWD_TIME_PAUSE s2 =
         Some (s2\<lparr>reads := n3, wire := wire s2 @ [Until RWD_TIME_PAUSE]\<rparr>)"
    by (auto simp: s2)
  define s4 where "s4 = s2\<lparr>reads := n3, wire := wire s2 @ [Until RWD_TIME_PAUSE, Pin True]\<rparr>"
  have s4: "timer s4 = timer s" "reads s4 = n3" by (simp_all add: s4_def s2_def)
  from busy_wait_live [of s4 "timer s (reads s)" "if b then RWD_TIME_1 else RWD_TIME_0"] assms
  obtain n5 where n5: "n5 > reads s4"
      "busy_wait (timer s (reads s)) (if b then RWD_TIME_1 else RWD_TIME_0) s4 =
         Some (s4\<lparr>reads := n5,
                 wire := wire s4 @ [Until (if b then RWD_TIME_1 else RWD_TIME_0)]\<rparr>)"
    by (auto simp: s4)
  have "tx_bit b s = Some (s\<lparr>reads := n5, wire := wire s @ bit_wave b\<rparr>)"
    using n3(2) n5(2)
    by (simp add: tx_bit_def stamp_def GetCountUS_def LOW_def HIGH_def emit_def bit_wave_def
        s2_def s4_def split: if_splits)
  moreover have "n5 > reads s"
    using n3(1) n5(1) by (simp add: s2 s4)
  ultimately show ?thesis by blast
qed

lemma tx_frame_loop_live:
  assumes "live (timer s)" and "len - i = n"
  shows "\<exists>m\<ge>reads s. tx_frame_loop c frame len i s =
     Some (s\<lparr>reads := m,
             wire := wire s @ concat (map bit_wave
               (map (\<lambda>j. bit frame (i + j) \<noteq> keystream c (seed (lfsr s)) (pos (lfsr s) + j))
                  [0..<n])),
             lfsr := (lfsr s)\<lparr>pos := pos (lfsr s) + n\<rparr>\<rparr>)"
  using assms
proof (induction n arbitrary: i s)
  case 0
  then have "tx_frame_loop c frame len i s = Some s"
    by (subst tx_frame_loop.simps) simp
  then show ?case
    by (intro exI [of _ "reads s"]) simp
next
  case (Suc n)
  then have lt: "i < len" by simp
  define b where "b = (bit frame i \<noteq> legic_prng_get_bit c s)"
  from tx_bit_live [OF Suc.prems(1), of b] obtain m1
    where m1: "m1 > reads s" "tx_bit b s = Some (s\<lparr>reads := m1, wire := wire s @ bit_wave b\<rparr>)"
    by blast
  define s1 where "s1 = legic_prng_forward 1 (s\<lparr>reads := m1, wire := wire s @ bit_wave b\<rparr>)"
  have s1: "timer s1 = timer s" "reads s1 = m1" "wire s1 = wire s @ bit_wave b"
    "lfsr s1 = (lfsr s)\<lparr>pos := Suc (pos (lfsr s))\<rparr>"
    by (simp_all add: s1_def legic_prng_forward_def)
  have step: "tx_frame_loop c frame len i s = tx_frame_loop c frame len (Suc i) s1"
    using lt m1(2)
    unfolding b_def s1_def by (subst tx_frame_loop.simps) simp
  have pre: "live (timer s1)" "len - Suc i = n"
    using Suc.prems by (simp_all add: s1)
  from Suc.IH [OF pre] obtain m
    where m: "m \<ge> reads s1" "tx_frame_loop c frame len (Suc i) s1 =
     Some (s1\<lparr>reads := m,
             wire := wire s1 @ concat (map bit_wave
               (map (\<lambda>j. bit frame (Suc i + j) \<noteq> keystream c (seed (lfsr s1)) (pos (lfsr s1) + j))
                  [0..<n])),
             lfsr := (lfsr s1)\<lparr>pos := pos (lfsr s1) + n\<rparr>\<rparr>)"
    by blast
  have "tx_frame_loop c frame len i s =
     Some (s\<lparr>reads := m,
             wire := wire s @ concat (map bit_wave
               (map (\<lambda>j. bit frame (i + j) \<noteq> keystream c (seed (lfsr s)) (pos (lfsr s) + j))
                  [0..<Suc n])),
             lfsr := (lfsr s)\<lparr>pos := pos (lfsr s) + Suc n\<rparr>\<rparr>)"
    unfolding step m(2)
    by (simp add: s1 map_upt_Suc b_def legic_prng_get_bit_def del: upt_Suc)
      (simp add: s1_def legic_prng_forward_def)
  moreover have "m \<ge> reads s"
    using m(1) m1(1) by (simp add: s1)
  ultimately show ?case by blast
qed

lemma tx_frame_live:
  assumes "live (timer s)"
  shows "\<exists>m>reads s. tx_frame c frame len s =
     Some (s\<lparr>reads := m,
             wire := wire s @ frame_wave (cipher_bits c (lfsr s) frame (unat len)),
             lfsr := (lfsr s)\<lparr>pos := pos (lfsr s) + unat len\<rparr>\<rparr>)"
proof -
  define s0 where "s0 = FpgaWriteConfWord HF_READER_TX s"
  have s0: "timer s0 = timer s" "reads s0 = reads s" "lfsr s0 = lfsr s"
    "wire s0 = wire s @ [Conf HF_READER_TX]"
    by (simp_all add: s0_def FpgaWriteConfWord_def emit_def)
  have pre: "live (timer s0)" "unat len - 0 = unat len"
    using assms by (simp_all add: s0)
  from tx_frame_loop_live [OF pre, of c frame] obtain m1
    where "m1 \<ge> reads s0" "tx_frame_loop c frame (unat len) 0 s0 =
      Some (s0\<lparr>reads := m1,
             wire := wire s0 @ concat (map bit_wave
               (map (\<lambda>j. bit frame (0 + j) \<noteq> keystream c (seed (lfsr s0)) (pos (lfsr s0) + j))
                  [0..<unat len])),
             lfsr := (lfsr s0)\<lparr>pos := pos (lfsr s0) + unat len\<rparr>\<rparr>)"
    by blast
  then have m1: "m1 \<ge> reads s" "tx_frame_loop c frame (unat len) 0 s0 =
      Some (s0\<lparr>reads := m1,
             wire := wire s0 @ concat (map bit_wave (cipher_bits c (lfsr s) frame (unat len))),
             lfsr := (lfsr s)\<lparr>pos := pos (lfsr s) + unat len\<rparr>\<rparr>)"
    by (simp_all add: s0 cipher_bits_def)
  define s1 where "s1 = s0\<lparr>reads := m1,
             wire := wire s0 @ concat (map bit_wave (cipher_bits c (lfsr s) frame (unat len))),
             lfsr := (lfsr s)\<lparr>pos := pos (lfsr s) + unat len\<rparr>\<rparr>"
  define s2 where "s2 = LOW (snd (stamp s1))"
  have s2: "timer s2 = timer s" "reads s2 = Suc m1"
    by (simp_all add: s2_def s1_def stamp_def GetCountUS_def LOW_def emit_def s0)
  have "live (timer s2)"
    using assms by (simp add: s2)
  from busy_wait_live [OF this, of "timer s m1" RWD_TIME_PAUSE] obtain m3
    where m3: "m3 > reads s2"
      "busy_wait (timer s m1) RWD_TIME_PAUSE s2 =
         Some (s2\<lparr>reads := m3, wire := wire s2 @ [Until RWD_TIME_PAUSE]\<rparr>)"
    by blast
  have "tx_frame c frame len s =
     Some (s\<lparr>reads := m3,
             wire := wire s @ frame_wave (cipher_bits c (lfsr s) frame (unat len)),
             lfsr := (lfsr s)\<lparr>pos := pos (lfsr s) + unat len\<rparr>\<rparr>)"
    using m1(2) m3(2)
    by (simp add: tx_frame_def stamp_def GetCountUS_def s0 s2_def s1_def frame_wave_def
          LOW_def HIGH_def emit_def flip: s0_def)
       (simp add: s0_def FpgaWriteConfWord_def emit_def)
  moreover have "m3 > reads s"
    using m1(1) m3(1) by (simp add: s2)
  ultimately show ?thesis by blast
qed

lemma ten_bytes:
  "10 \<le> length (xs :: 'a list) \<Longrightarrow>
   \<exists>q0 i0 q1 i1 q2 i2 q3 i3 q4 i4 rest. xs = q0 # i0 # q1 # i1 # q2 # i2 # q3 # i3 # q4 # i4 # rest"
  by (simp add: eval_nat_numeral Suc_le_length_iff) blast

lemma rx_bit_run:
  assumes "10 \<le> length (ssc_rx s)"
  shows "\<exists>m. rx_bit s = Some (decision (input_threshold s) (ssc_rx s),
                 s\<lparr>ssc_rx := drop 10 (ssc_rx s), dbg := dbg s @ m\<rparr>)"
proof -
  from ten_bytes [OF assms] obtain q0 i0 q1 i1 q2 i2 q3 i3 q4 i4 rest
    where bs: "ssc_rx s = q0 # i0 # q1 # i1 # q2 # i2 # q3 # i3 # q4 # i4 # rest"
    by blast
  show ?thesis
  proof (cases "(amplitude q2 i2 > input_threshold s \<and> amplitude q3 i3 > input_threshold s) \<or>
                (amplitude q2 i2 < input_threshold s \<and> amplitude q3 i3 < input_threshold s)")
    case True
    then have "rx_bit s = Some (decision (input_threshold s) (ssc_rx s),
                 s\<lparr>ssc_rx := drop 10 (ssc_rx s), dbg := dbg s @ []\<rparr>)"
      by (auto simp: rx_bit_eval [OF bs] Let_def bs decision_def)
    then show ?thesis by blast
  next
    case False
    then have "rx_bit s = Some (decision (input_threshold s) (ssc_rx s),
                 s\<lparr>ssc_rx := drop 10 (ssc_rx s),
                   dbg := dbg s @ [(''rx_bit failed %i vs %i (threshold %i)'',
                      [amplitude q2 i2, amplitude q3 i3, input_threshold s])]\<rparr>)"
      by (auto simp: rx_bit_eval [OF bs] Let_def bs decision_def Dbprintf_def)
    then show ?thesis by blast
  qed
qed

subsection \<open>Reception\<close>

lemma rx_frame_loop_run:
  assumes "10 * n \<le> length (ssc_rx s)" and "len - i = n"
  shows "\<exists>m fr. rx_frame_loop c len i frame s =
           Some (fr, s\<lparr>ssc_rx := drop (10 * n) (ssc_rx s), dbg := dbg s @ m,
                        lfsr := (lfsr s)\<lparr>pos := pos (lfsr s) + n\<rparr>\<rparr>) \<and>
         (\<forall>k. bit fr k \<longleftrightarrow> bit frame k \<or>
            (i \<le> k \<and> k < i + n \<and> k < 32 \<and>
             (decision (input_threshold s) (drop (10 * (k - i)) (ssc_rx s)) \<noteq>
              keystream c (seed (lfsr s)) (pos (lfsr s) + (k - i)))))"
  using assms
proof (induction n arbitrary: i frame s)
  case 0
  then have "rx_frame_loop c len i frame s = Some (frame, s)"
    by (subst rx_frame_loop.simps) simp
  then show ?case
    by (intro exI [of _ "[]"] exI [of _ frame]) auto
next
  case (Suc n)
  then have lt: "i < len" by simp
  have ten: "10 \<le> length (ssc_rx s)"
    using Suc.prems(1) by simp
  define b where "b = decision (input_threshold s) (ssc_rx s)"
  from rx_bit_run [OF ten] obtain m1
    where m1: "rx_bit s = Some (b, s\<lparr>ssc_rx := drop 10 (ssc_rx s), dbg := dbg s @ m1\<rparr>)"
    unfolding b_def by blast
  define s1 where
    "s1 = legic_prng_forward 1 (s\<lparr>ssc_rx := drop 10 (ssc_rx s), dbg := dbg s @ m1\<rparr>)"
  define k0 where "k0 = keystream c (seed (lfsr s)) (pos (lfsr s))"
  define fr1 :: "32 word" where "fr1 = frame OR push_bit i (of_bool (b \<noteq> k0))"
  have s1: "ssc_rx s1 = drop 10 (ssc_rx s)" "dbg s1 = dbg s @ m1"
    "lfsr s1 = (lfsr s)\<lparr>pos := Suc (pos (lfsr s))\<rparr>" "input_threshold s1 = input_threshold s"
    by (simp_all add: s1_def legic_prng_forward_def)
  have step: "rx_frame_loop c len i frame s = rx_frame_loop c len (Suc i) fr1 s1"
    using lt m1
    by (subst rx_frame_loop.simps)
      (simp add: s1_def fr1_def k0_def legic_prng_get_bit_def)
  have pre: "10 * n \<le> length (ssc_rx s1)" "len - Suc i = n"
    using Suc.prems by (simp_all add: s1)
  from Suc.IH [OF pre, of fr1] obtain m fr
    where run: "rx_frame_loop c len (Suc i) fr1 s1 =
           Some (fr, s1\<lparr>ssc_rx := drop (10 * n) (ssc_rx s1), dbg := dbg s1 @ m,
                        lfsr := (lfsr s1)\<lparr>pos := pos (lfsr s1) + n\<rparr>\<rparr>)"
      and bits: "\<And>k. bit fr k \<longleftrightarrow> bit fr1 k \<or>
            (Suc i \<le> k \<and> k < Suc i + n \<and> k < 32 \<and>
             (decision (input_threshold s1) (drop (10 * (k - Suc i)) (ssc_rx s1)) \<noteq>
              keystream c (seed (lfsr s1)) (pos (lfsr s1) + (k - Suc i))))"
    by blast
  have res: "rx_frame_loop c len i frame s =
           Some (fr, s\<lparr>ssc_rx := drop (10 * Suc n) (ssc_rx s), dbg := dbg s @ (m1 @ m),
                        lfsr := (lfsr s)\<lparr>pos := pos (lfsr s) + Suc n\<rparr>\<rparr>)"
    unfolding step run by (simp add: s1) (simp add: s1_def legic_prng_forward_def add.commute)
  have fr1_bit: "bit fr1 k \<longleftrightarrow> bit frame k \<or> (k = i \<and> k < 32 \<and> (b \<noteq> k0))" for k
    by (auto simp: fr1_def bit_simps)
  have "bit fr k \<longleftrightarrow> bit frame k \<or>
            (i \<le> k \<and> k < i + Suc n \<and> k < 32 \<and>
             (decision (input_threshold s) (drop (10 * (k - i)) (ssc_rx s)) \<noteq>
              keystream c (seed (lfsr s)) (pos (lfsr s) + (k - i))))" for k
  proof (cases "k = i")
    case True
    then show ?thesis
      by (simp add: bits fr1_bit b_def k0_def)
  next
    case False
    show ?thesis
    proof (cases "Suc i \<le> k")
      case True
      then have "Suc (pos (lfsr s)) + (k - Suc i) = pos (lfsr s) + (k - i)"
        and "10 * (k - Suc i) + 10 = 10 * (k - i)"
        by simp_all
      then show ?thesis
        using True False by (simp add: bits fr1_bit s1)
    next
      case False
      then show ?thesis
        using \<open>k \<noteq> i\<close> by (simp add: bits fr1_bit)
    qed
  qed
  with res show ?case by blast
qed

lemma rx_frame_run:
  assumes "10 * unat len \<le> length (ssc_rx s)"
  shows "\<exists>m. rx_frame c len s =
           Some (rx_value c (lfsr s) (input_threshold s) (ssc_rx s) (unat len),
                 s\<lparr>ssc_rx := drop (10 * unat len) (ssc_rx s), dbg := dbg s @ m,
                   lfsr := (lfsr s)\<lparr>pos := pos (lfsr s) + unat len\<rparr>,
                   wire := wire s @ [Conf HF_READER_RX_XCORR_848_KHZ_QUARTER]\<rparr>)"
proof -
  define s0 where "s0 = FpgaWriteConfWord HF_READER_RX_XCORR_848_KHZ_QUARTER s"
  have s0: "ssc_rx s0 = ssc_rx s" "lfsr s0 = lfsr s" "input_threshold s0 = input_threshold s"
    "dbg s0 = dbg s"
    by (simp_all add: s0_def FpgaWriteConfWord_def emit_def)
  have pre: "10 * unat len \<le> length (ssc_rx s0)" "unat len - 0 = unat len"
    using assms by (simp_all add: s0)
  from rx_frame_loop_run [OF pre, of c 0] obtain m fr
    where run: "rx_frame_loop c (unat len) 0 0 s0 =
           Some (fr, s0\<lparr>ssc_rx := drop (10 * unat len) (ssc_rx s0), dbg := dbg s0 @ m,
                        lfsr := (lfsr s0)\<lparr>pos := pos (lfsr s0) + unat len\<rparr>\<rparr>)"
      and bits: "\<And>k. bit fr k \<longleftrightarrow> bit (0 :: 32 word) k \<or>
            (0 \<le> k \<and> k < 0 + unat len \<and> k < 32 \<and>
             (decision (input_threshold s0) (drop (10 * (k - 0)) (ssc_rx s0)) \<noteq>
              keystream c (seed (lfsr s0)) (pos (lfsr s0) + (k - 0))))"
    by blast
  have "fr = rx_value c (lfsr s) (input_threshold s) (ssc_rx s) (unat len)"
    by (rule bit_eqI) (auto simp: bits s0 rx_value_def bit_horner_sum_bit_word_iff)
  then have "rx_frame c len s =
           Some (rx_value c (lfsr s) (input_threshold s) (ssc_rx s) (unat len),
                 s\<lparr>ssc_rx := drop (10 * unat len) (ssc_rx s), dbg := dbg s @ m,
                   lfsr := (lfsr s)\<lparr>pos := pos (lfsr s) + unat len\<rparr>,
                   wire := wire s @ [Conf HF_READER_RX_XCORR_848_KHZ_QUARTER]\<rparr>)"
    using run by (simp add: rx_frame_def s0 flip: s0_def)
      (simp add: s0_def FpgaWriteConfWord_def emit_def)
  then show ?thesis by blast
qed

subsection \<open>Reading a byte\<close>

lemma ff_mask: "(0xff :: 32 word) = mask 8"
  by (simp add: mask_eq_exp_minus_1)

lemma BYTEx_0: "BYTEx frame 0 = ucast frame"
  unfolding BYTEx_def ff_mask by (rule bit_eqI) (auto simp: bit_simps)

lemma BYTEx_1: "BYTEx frame (Suc 0) = ucast (drop_bit 8 frame)"
  unfolding BYTEx_def ff_mask by (rule bit_eqI) (auto simp: bit_simps)

lemma rx_value_bit:
  "bit (rx_value c g t bs n) k \<longleftrightarrow>
     k < n \<and> k < 32 \<and> (decision t (drop (10 * k) bs) \<noteq> keystream c (seed g) (pos g + k))"
  by (auto simp: rx_value_def bit_horner_sum_bit_word_iff)

lemma rx_value_nibble: "(ucast (drop_bit 8 (rx_value c g t bs 12)) :: 8 word) < 16"
proof -
  have "(ucast (drop_bit 8 (rx_value c g t bs 12)) :: 8 word) =
        ucast (drop_bit 8 (rx_value c g t bs 12)) AND mask 4"
    by (rule bit_eqI) (auto simp: bit_simps rx_value_bit)
  also have "\<dots> < 2 ^ 4"
    by (rule and_mask_less_size) (simp add: word_size)
  finally show ?thesis by simp
qed

lemma read_byte_run:
  assumes "live (timer s)" and "120 \<le> length (ssc_rx s)"
    and "cmd = push_bit 1 index OR LEGIC_READ"
    and "frame = rx_value c ((lfsr s)\<lparr>pos := pos (lfsr s) + unat cmd_sz\<rparr>)
                   (input_threshold s) (ssc_rx s) 12"
    and "byte = (ucast frame :: 8 word)"
    and "crc = (ucast (drop_bit 8 frame) :: 8 word)"
    and "calc_crc = crc4 c (push_bit (unat cmd_sz) (ucast byte) OR ucast cmd) (8 + unat cmd_sz)"
  shows "\<exists>n m. read_byte c index cmd_sz s =
            Some (if calc_crc \<noteq> crc then - 1 else uint byte,
                  s\<lparr>reads := n, ssc_rx := drop 120 (ssc_rx s),
                    wire := wire s @ frame_wave (cipher_bits c (lfsr s) (ucast cmd) (unat cmd_sz)) @
                            [Conf HF_READER_RX_XCORR_848_KHZ_QUARTER],
                    lfsr := (lfsr s)\<lparr>pos := pos (lfsr s) + unat cmd_sz + 12\<rparr>,
                    dbg := dbg s @ m @
                      (if calc_crc \<noteq> crc
                       then [(''!!! crc mismatch: %x != %x !!!'', [uint calc_crc, uint crc])]
                       else [])\<rparr>)"
proof -
  from tx_frame_live [OF assms(1), of c "ucast cmd" cmd_sz] obtain n
    where tx: "tx_frame c (ucast cmd) cmd_sz s =
     Some (s\<lparr>reads := n,
             wire := wire s @ frame_wave (cipher_bits c (lfsr s) (ucast cmd) (unat cmd_sz)),
             lfsr := (lfsr s)\<lparr>pos := pos (lfsr s) + unat cmd_sz\<rparr>\<rparr>)"
    by blast
  define s1 where "s1 = s\<lparr>reads := n,
             wire := wire s @ frame_wave (cipher_bits c (lfsr s) (ucast cmd) (unat cmd_sz)),
             lfsr := (lfsr s)\<lparr>pos := pos (lfsr s) + unat cmd_sz\<rparr>\<rparr>"
  have s1: "ssc_rx s1 = ssc_rx s" "input_threshold s1 = input_threshold s"
    "lfsr s1 = (lfsr s)\<lparr>pos := pos (lfsr s) + unat cmd_sz\<rparr>" "dbg s1 = dbg s"
    by (simp_all add: s1_def)
  have "10 * unat (12 :: 8 word) \<le> length (ssc_rx s1)"
    using assms(2) by (simp add: s1)
  from rx_frame_run [OF this, of c] obtain m
    where rx: "rx_frame c 12 s1 =
           Some (frame,
                 s1\<lparr>ssc_rx := drop 120 (ssc_rx s1), dbg := dbg s1 @ m,
                   lfsr := (lfsr s1)\<lparr>pos := pos (lfsr s1) + 12\<rparr>,
                   wire := wire s1 @ [Conf HF_READER_RX_XCORR_848_KHZ_QUARTER]\<rparr>)"
    by (auto simp: s1 assms(4))
  have "read_byte c index cmd_sz s =
            Some (if calc_crc \<noteq> crc then - 1 else uint byte,
                  s\<lparr>reads := n, ssc_rx := drop 120 (ssc_rx s),
                    wire := wire s @ frame_wave (cipher_bits c (lfsr s) (ucast cmd) (unat cmd_sz)) @
                            [Conf HF_READER_RX_XCORR_848_KHZ_QUARTER],
                    lfsr := (lfsr s)\<lparr>pos := pos (lfsr s) + unat cmd_sz + 12\<rparr>,
                    dbg := dbg s @ m @
                      (if calc_crc \<noteq> crc
                       then [(''!!! crc mismatch: %x != %x !!!'', [uint calc_crc, uint crc])]
                       else [])\<rparr>)"
    using tx rx
    unfolding assms(7) assms(6) assms(5) assms(3) s1_def
    by (simp add: read_byte_def Let_def BYTEx_0 BYTEx_1 calc_crc4_def Dbprintf_def)
  then show ?thesis by blast
qed


text \<open>
  C3. For every address index and command width, \<^verbatim>\<open>read_byte\<close> sends the command
  \<open>(index << 1) | LEGIC_READ\<close> as a frame of the command width and receives a frame of
  12 bits: the low 8 are the data byte, the next 4 the CRC. It computes the CRC-4 of
  \<open>(byte << width) | cmd\<close> over \<open>8 + width\<close> bits. When the received CRC differs, it logs
  the two values and returns \<open>-1\<close>; when it is equal, it returns the data byte, a value
  in 0..255 and so never \<open>-1\<close>. (With a live timer and the 120 bytes of the response
  arriving, the call returns.)
\<close>

theorem read_byte_crc_check:
  assumes "live (timer s)" and "120 \<le> length (ssc_rx s)"
    and "cmd = push_bit 1 index OR LEGIC_READ"
    and "frame = rx_value c ((lfsr s)\<lparr>pos := pos (lfsr s) + unat cmd_sz\<rparr>)
                   (input_threshold s) (ssc_rx s) 12"
    and "byte = (ucast frame :: 8 word)"
    and "crc = (ucast (drop_bit 8 frame) :: 8 word)"
    and "calc_crc = crc4 c (push_bit (unat cmd_sz) (ucast byte) OR ucast cmd) (8 + unat cmd_sz)"
  shows "(\<exists>n m. read_byte c index cmd_sz s =
            Some (if calc_crc \<noteq> crc then - 1 else uint byte,
                  s\<lparr>reads := n, ssc_rx := drop 120 (ssc_rx s),
                    wire := wire s @ frame_wave (cipher_bits c (lfsr s) (ucast cmd) (unat cmd_sz)) @
                            [Conf HF_READER_RX_XCORR_848_KHZ_QUARTER],
                    lfsr := (lfsr s)\<lparr>pos := pos (lfsr s) + unat cmd_sz + 12\<rparr>,
                    dbg := dbg s @ m @
                      (if calc_crc \<noteq> crc
                       then [(''!!! crc mismatch: %x != %x !!!'', [uint calc_crc, uint crc])]
                       else [])\<rparr>)) \<and>
         0 \<le> uint byte \<and> uint byte < 256 \<and> crc < 16"
proof -
  have "0 \<le> uint byte \<and> uint byte < 256"
    using uint_lt2p [of byte] by simp
  moreover have "crc < 16"
    unfolding assms(6) assms(4) by (rule rx_value_nibble)
  ultimately show ?thesis
    using read_byte_run [OF assms] by blast
qed

subsection \<open>The bench\<close>

lemma live_bench: "live (timer (bench bs t))"
  unfolding live_def
proof (intro allI)
  fix n :: nat and d :: "32 word"
  define k where "k = unat ((d - of_nat n * 5001) * 3492827833)"
  have inv: "(3492827833 :: 32 word) * 5001 = 1"
    by simp
  have "of_nat (n + k) * 5001 = of_nat n * 5001 + (d - of_nat n * 5001) * (3492827833 * 5001 :: 32 word)"
    by (simp add: k_def algebra_simps)
  also have "\<dots> = d"
    unfolding inv by simp
  finally have "timer (bench bs t) (n + k) = d"
    by (simp add: bench_def)
  then show "\<exists>m\<ge>n. d \<le> timer (bench bs t) m"
    by (intro exI [of _ "n + k"]) simp
qed

lemma rx_value_silence:
  assumes "0 \<le> t" and "10 * n \<le> m"
  shows "rx_value bench_collab g t (replicate m 0) n = 0"
proof (rule bit_eqI)
  fix k
  have "\<not> decision t (drop (10 * k) (replicate m 0))" if "k < n"
  proof -
    have "10 * k + 10 \<le> m"
      using that assms(2) by simp
    then have "(drop (10 * k) (replicate m (0 :: 8 word))) ! j = 0" if "j < 10" for j
      using that by simp
    then show ?thesis
      using assms(1) by (simp add: decision_def amplitude_def)
  qed
  then show "bit (rx_value bench_collab g t (replicate m 0) n) k \<longleftrightarrow> bit (0 :: 32 word) k"
    by (auto simp: rx_value_bit bench_collab_def)
qed

subsection \<open>Round trip of a frame\<close>

lemma clean_channel_decisions:
  assumes "clean_channel t ws bs"
  shows "10 * length ws \<le> length bs \<and>
         (\<forall>j<length ws. decision t (drop (10 * j) bs) = ws ! j)"
  using assms
proof (induction ws arbitrary: bs)
  case Nil
  then show ?case by simp
next
  case (Cons w ws)
  then have len: "10 \<le> length bs" and rest: "clean_channel t ws (drop 10 bs)"
    and first: "decision t bs = w"
    by (auto simp: decision_def Let_def split: if_splits)
  from Cons.IH [OF rest] have ih: "10 * length ws \<le> length (drop 10 bs)"
    "\<And>j. j < length ws \<Longrightarrow> decision t (drop (10 * j) (drop 10 bs)) = ws ! j"
    by simp_all
  have "decision t (drop (10 * j) bs) = (w # ws) ! j" if "j < length (w # ws)" for j
  proof (cases j)
    case 0
    then show ?thesis by (simp add: first)
  next
    case (Suc j')
    then have "10 * j = 10 * j' + 10" by simp
    then show ?thesis
      using ih(2) [of j'] that Suc by (simp add: add.commute)
  qed
  moreover have "10 * length (w # ws) \<le> length bs"
    using ih(1) len by simp
  ultimately show ?case by blast
qed

lemma word_bit_bound:
  fixes V :: "32 word"
  assumes "unat V < 2 ^ n" and "bit V k"
  shows "k < n"
proof -
  have "take_bit n (unat V) = unat V"
    using assms(1) by (simp add: take_bit_nat_eq_self_iff)
  moreover have "bit (unat V) k"
    using assms(2) by (simp add: bit_unsigned_iff)
  ultimately have "bit (take_bit n (unat V)) k"
    by simp
  then show ?thesis
    by (simp add: bit_take_bit_iff)
qed

lemma rx_value_round_trip:
  assumes "n \<le> 32" and "unat V < 2 ^ n"
    and "\<forall>j<n. decision t (drop (10 * j) bs) = cipher_bits c g V n ! j"
  shows "rx_value c g t bs n = V"
proof (rule bit_eqI)
  fix k
  show "bit (rx_value c g t bs n) k \<longleftrightarrow> bit V k"
  proof (cases "k < n")
    case True
    then have "decision t (drop (10 * k) bs) = (bit V k \<noteq> keystream c (seed g) (pos g + k))"
      using assms(3) by (simp add: cipher_bits_def)
    then show ?thesis
      using True assms(1) by (auto simp: rx_value_bit)
  next
    case False
    then show ?thesis
      using word_bit_bound [OF assms(2)] by (auto simp: rx_value_bit)
  qed
qed

lemma length_cipher_bits: "length (cipher_bits c g V n) = n"
  by (simp add: cipher_bits_def)

text \<open>
  C2. Round trip of a frame. Let \<open>V\<close> be a frame value of \<open>L\<close> bits, \<open>L\<close> at most 32. A
  transmitter with a live timer sends it: the call returns, the bits on the line are
  those of \<open>V\<close> combined with the keystream, and the keystream position has advanced by
  \<open>L\<close>. A receiver in the same keystream state, reached by those bits over a channel
  without drift, returns \<open>V\<close>, and its keystream position has advanced by \<open>L\<close>. Whatever
  the samples are (clear or ambiguous), a receiver that gets the bytes of \<open>L\<close> bit periods
  returns with its position advanced by \<open>L\<close>.
\<close>

theorem frame_round_trip:
  assumes "unat L \<le> 32" and "unat V < 2 ^ unat L"
    and "live (timer s)"
    and "lfsr r = lfsr s"
    and "clean_channel (input_threshold r) (cipher_bits c (lfsr s) V (unat L)) (ssc_rx r)"
  shows "(\<exists>n. tx_frame c V L s =
            Some (s\<lparr>reads := n,
                    wire := wire s @ frame_wave (cipher_bits c (lfsr s) V (unat L)),
                    lfsr := (lfsr s)\<lparr>pos := pos (lfsr s) + unat L\<rparr>\<rparr>)) \<and>
         (\<exists>m. rx_frame c L r =
            Some (V, r\<lparr>ssc_rx := drop (10 * unat L) (ssc_rx r), dbg := dbg r @ m,
                        lfsr := (lfsr r)\<lparr>pos := pos (lfsr r) + unat L\<rparr>,
                        wire := wire r @ [Conf HF_READER_RX_XCORR_848_KHZ_QUARTER]\<rparr>)) \<and>
         (\<forall>q. 10 * unat L \<le> length (ssc_rx q) \<longrightarrow>
            (\<exists>v q'. rx_frame c L q = Some (v, q') \<and>
                     pos (lfsr q') = pos (lfsr q) + unat L))"
proof -
  from tx_frame_live [OF assms(3), of c V L]
  have tx: "\<exists>n. tx_frame c V L s =
            Some (s\<lparr>reads := n,
                    wire := wire s @ frame_wave (cipher_bits c (lfsr s) V (unat L)),
                    lfsr := (lfsr s)\<lparr>pos := pos (lfsr s) + unat L\<rparr>\<rparr>)"
    by blast
  from clean_channel_decisions [OF assms(5)]
  have len: "10 * unat L \<le> length (ssc_rx r)"
    and dec: "\<forall>j<unat L. decision (input_threshold r) (drop (10 * j) (ssc_rx r)) =
                cipher_bits c (lfsr r) V (unat L) ! j"
    by (simp_all add: length_cipher_bits assms(4))
  have val: "rx_value c (lfsr r) (input_threshold r) (ssc_rx r) (unat L) = V"
    by (rule rx_value_round_trip [OF assms(1,2) dec])
  from rx_frame_run [OF len, of c]
  have rx: "\<exists>m. rx_frame c L r =
            Some (V, r\<lparr>ssc_rx := drop (10 * unat L) (ssc_rx r), dbg := dbg r @ m,
                        lfsr := (lfsr r)\<lparr>pos := pos (lfsr r) + unat L\<rparr>,
                        wire := wire r @ [Conf HF_READER_RX_XCORR_848_KHZ_QUARTER]\<rparr>)"
    by (simp add: val)
  have any: "\<exists>v q'. rx_frame c L q = Some (v, q') \<and> pos (lfsr q') = pos (lfsr q) + unat L"
    if "10 * unat L \<le> length (ssc_rx q)" for q
  proof -
    from rx_frame_run [OF that, of c] obtain m where "rx_frame c L q =
           Some (rx_value c (lfsr q) (input_threshold q) (ssc_rx q) (unat L),
                 q\<lparr>ssc_rx := drop (10 * unat L) (ssc_rx q), dbg := dbg q @ m,
                   lfsr := (lfsr q)\<lparr>pos := pos (lfsr q) + unat L\<rparr>,
                   wire := wire q @ [Conf HF_READER_RX_XCORR_848_KHZ_QUARTER]\<rparr>)"
      by blast
    then show ?thesis by simp
  qed
  from tx rx any show ?thesis by blast
qed

subsection \<open>Handshake\<close>

lemma handshake_stages:
  assumes "live (timer s)" and "60 \<le> length (ssc_rx s)"
    and "ct = rx_value c \<lparr>seed = iv, pos = 2\<rparr> (input_threshold s) (ssc_rx s) 6"
  shows "\<exists>n2 w m n.
     tx_frame c (ucast iv) 7 (legic_prng_init 0 s) = Some (iv_sent c iv s n2) \<and>
     waited (timer s) n2 TAG_FRAME_WAIT w \<and>
     rx_frame c 6 (listening c iv s w) = Some (ct, type_heard c iv s w m) \<and>
     handshake c iv s =
       (if ct = 0x0D then tx_frame c 0x19 6 (type_heard c iv s w m)
        else if ct = 0x1D \<or> ct = 0x3D then tx_frame c 0x39 6 (type_heard c iv s w m)
        else Some (type_heard c iv s w m)) \<bind> (\<lambda>s8. Some (ct, s8)) \<and>
     Suc w \<le> n \<and>
     handshake c iv s =
       Some (ct, s\<lparr>reads := n, ssc_rx := drop 60 (ssc_rx s), dbg := dbg s @ m,
                 wire := wire s @ frame_wave (cipher_bits c \<lparr>seed = 0, pos = 0\<rparr> (ucast iv) 7) @
                         [Stamp, Until TAG_FRAME_WAIT, Conf HF_READER_RX_XCORR_848_KHZ_QUARTER] @
                         (if ct = 0x0D then frame_wave (cipher_bits c \<lparr>seed = iv, pos = 8\<rparr> 0x19 6)
                          else if ct = 0x1D \<or> ct = 0x3D
                            then frame_wave (cipher_bits c \<lparr>seed = iv, pos = 8\<rparr> 0x39 6)
                          else []),
                 lfsr := \<lparr>seed = iv,
                          pos = (if ct = 0x0D \<or> ct = 0x1D \<or> ct = 0x3D then 14 else 8)\<rparr>\<rparr>)"
proof -
  define s1 where "s1 = legic_prng_init 0 s"
  have s1: "timer s1 = timer s" "lfsr s1 = \<lparr>seed = 0, pos = 0\<rparr>"
    by (simp_all add: s1_def legic_prng_init_def)
  have "live (timer s1)"
    using assms(1) by (simp add: s1)
  from tx_frame_live [OF this, of c "ucast iv" 7] obtain n2
    where tx: "tx_frame c (ucast iv) 7 s1 =
      Some (s1\<lparr>reads := n2,
             wire := wire s1 @ frame_wave (cipher_bits c (lfsr s1) (ucast iv) (unat (7 :: 8 word))),
             lfsr := (lfsr s1)\<lparr>pos := pos (lfsr s1) + unat (7 :: 8 word)\<rparr>\<rparr>)"
    by blast
  define s2 where "s2 = iv_sent c iv s n2"
  have tx': "tx_frame c (ucast iv) 7 s1 = Some s2"
    using tx by (simp add: s2_def iv_sent_def s1) (simp add: s1_def legic_prng_init_def)
  define s5 where "s5 = legic_prng_forward 2 (legic_prng_init iv (snd (stamp s2)))"
  have ts: "fst (stamp s2) = timer s n2"
    by (simp add: s2_def iv_sent_def stamp_def GetCountUS_def)
  have s5: "timer s5 = timer s" "reads s5 = Suc n2"
    by (simp_all add: s5_def s2_def iv_sent_def legic_prng_init_def legic_prng_forward_def
        stamp_def GetCountUS_def emit_def)
  have "live (timer s5)"
    using assms(1) by (simp add: s5)
  from busy_wait_first [OF this, of "fst (stamp s2)" TAG_FRAME_WAIT] obtain w
    where w: "Suc n2 \<le> w"
      "busy_wait (fst (stamp s2)) TAG_FRAME_WAIT s5 =
         Some (s5\<lparr>reads := Suc w, wire := wire s5 @ [Until TAG_FRAME_WAIT]\<rparr>)"
      "\<forall>k\<in>{Suc n2..<w}. timer s k < timer s n2 + TAG_FRAME_WAIT"
      "\<not> timer s w < timer s n2 + TAG_FRAME_WAIT"
    unfolding s5 ts by blast
  have waited: "waited (timer s) n2 TAG_FRAME_WAIT w"
    using w(1,3,4) by (simp add: waited_def)
  define s6 where "s6 = listening c iv s w"
  have s6_eq: "s5\<lparr>reads := Suc w, wire := wire s5 @ [Until TAG_FRAME_WAIT]\<rparr> = s6"
    by (simp add: s6_def listening_def s5_def s2_def iv_sent_def legic_prng_init_def
        legic_prng_forward_def stamp_def GetCountUS_def emit_def)
  have wait': "busy_wait (fst (stamp s2)) TAG_FRAME_WAIT
      (legic_prng_forward 2 (legic_prng_init iv (snd (stamp s2)))) = Some s6"
    using w(2) unfolding s6_eq by (simp add: s5_def)
  have s6: "timer s6 = timer s" "lfsr s6 = \<lparr>seed = iv, pos = 2\<rparr>" "ssc_rx s6 = ssc_rx s"
    "input_threshold s6 = input_threshold s" "dbg s6 = dbg s"
    by (simp_all add: s6_def listening_def)
  have "10 * unat (6 :: 8 word) \<le> length (ssc_rx s6)"
    using assms(2) by (simp add: s6)
  from rx_frame_run [OF this, of c] obtain m
    where rx: "rx_frame c 6 s6 =
           Some (ct,
                 s6\<lparr>ssc_rx := drop 60 (ssc_rx s6), dbg := dbg s6 @ m,
                   lfsr := (lfsr s6)\<lparr>pos := pos (lfsr s6) + 6\<rparr>,
                   wire := wire s6 @ [Conf HF_READER_RX_XCORR_848_KHZ_QUARTER]\<rparr>)"
    by (auto simp: s6 assms(3))
  define s7 where "s7 = type_heard c iv s w m"
  have rx': "rx_frame c 6 s6 = Some (ct, s7)"
    using rx by (simp add: s6) (simp add: s7_def type_heard_def s6_def listening_def)
  have s7: "timer s7 = timer s" "lfsr s7 = \<lparr>seed = iv, pos = 8\<rparr>" "reads s7 = Suc w"
    by (simp_all add: s7_def type_heard_def)
  have live7: "live (timer s7)"
    using assms(1) by (simp add: s7)
  have front: "handshake c iv s =
     (if ct = 0x0D then tx_frame c 0x19 6 s7
      else if ct = 0x1D \<or> ct = 0x3D then tx_frame c 0x39 6 s7
      else Some s7) \<bind> (\<lambda>s8. Some (ct, s8))"
    by (simp add: handshake_def Let_def split_beta tx' wait' rx' flip: s1_def)
  have ack_tx: "\<exists>n>Suc w. tx_frame c fr 6 s7 =
      Some (s\<lparr>reads := n, ssc_rx := drop 60 (ssc_rx s), dbg := dbg s @ m,
                 wire := wire s @ frame_wave (cipher_bits c \<lparr>seed = 0, pos = 0\<rparr> (ucast iv) 7) @
                         [Stamp, Until TAG_FRAME_WAIT, Conf HF_READER_RX_XCORR_848_KHZ_QUARTER] @
                         frame_wave (cipher_bits c \<lparr>seed = iv, pos = 8\<rparr> fr 6),
                 lfsr := \<lparr>seed = iv, pos = 14\<rparr>\<rparr>)" for fr
  proof -
    from tx_frame_live [OF live7, of c fr 6] obtain n where n: "n > reads s7"
      "tx_frame c fr 6 s7 = Some (s7\<lparr>reads := n,
             wire := wire s7 @ frame_wave (cipher_bits c (lfsr s7) fr (unat (6 :: 8 word))),
             lfsr := (lfsr s7)\<lparr>pos := pos (lfsr s7) + unat (6 :: 8 word)\<rparr>\<rparr>)"
      by blast
    then have "tx_frame c fr 6 s7 =
      Some (s\<lparr>reads := n, ssc_rx := drop 60 (ssc_rx s), dbg := dbg s @ m,
                 wire := wire s @ frame_wave (cipher_bits c \<lparr>seed = 0, pos = 0\<rparr> (ucast iv) 7) @
                         [Stamp, Until TAG_FRAME_WAIT, Conf HF_READER_RX_XCORR_848_KHZ_QUARTER] @
                         frame_wave (cipher_bits c \<lparr>seed = iv, pos = 8\<rparr> fr 6),
                 lfsr := \<lparr>seed = iv, pos = 14\<rparr>\<rparr>)"
      by (simp add: s7) (simp add: s7_def type_heard_def)
    with n(1) show ?thesis unfolding s7 by blast
  qed
  have fin: "\<exists>n\<ge>Suc w. handshake c iv s =
       Some (ct, s\<lparr>reads := n, ssc_rx := drop 60 (ssc_rx s), dbg := dbg s @ m,
                 wire := wire s @ frame_wave (cipher_bits c \<lparr>seed = 0, pos = 0\<rparr> (ucast iv) 7) @
                         [Stamp, Until TAG_FRAME_WAIT, Conf HF_READER_RX_XCORR_848_KHZ_QUARTER] @
                         (if ct = 0x0D then frame_wave (cipher_bits c \<lparr>seed = iv, pos = 8\<rparr> 0x19 6)
                          else if ct = 0x1D \<or> ct = 0x3D
                            then frame_wave (cipher_bits c \<lparr>seed = iv, pos = 8\<rparr> 0x39 6)
                          else []),
                 lfsr := \<lparr>seed = iv,
                          pos = (if ct = 0x0D \<or> ct = 0x1D \<or> ct = 0x3D then 14 else 8)\<rparr>\<rparr>)"
  proof -
    consider "ct = 0x0D" | "ct \<noteq> 0x0D" "ct = 0x1D \<or> ct = 0x3D"
      | "ct \<noteq> 0x0D" "ct \<noteq> 0x1D" "ct \<noteq> 0x3D"
      by blast
    then show ?thesis
    proof cases
      case 1
      from ack_tx [of "0x19"] obtain n where "n > Suc w" "tx_frame c 0x19 6 s7 =
        Some (s\<lparr>reads := n, ssc_rx := drop 60 (ssc_rx s), dbg := dbg s @ m,
                   wire := wire s @ frame_wave (cipher_bits c \<lparr>seed = 0, pos = 0\<rparr> (ucast iv) 7) @
                           [Stamp, Until TAG_FRAME_WAIT, Conf HF_READER_RX_XCORR_848_KHZ_QUARTER] @
                           frame_wave (cipher_bits c \<lparr>seed = iv, pos = 8\<rparr> 0x19 6),
                   lfsr := \<lparr>seed = iv, pos = 14\<rparr>\<rparr>)"
        by blast
      with 1 show ?thesis
        by (intro exI [of _ n]) (simp add: front)
    next
      case 2
      from ack_tx [of "0x39"] obtain n where "n > Suc w" "tx_frame c 0x39 6 s7 =
        Some (s\<lparr>reads := n, ssc_rx := drop 60 (ssc_rx s), dbg := dbg s @ m,
                   wire := wire s @ frame_wave (cipher_bits c \<lparr>seed = 0, pos = 0\<rparr> (ucast iv) 7) @
                           [Stamp, Until TAG_FRAME_WAIT, Conf HF_READER_RX_XCORR_848_KHZ_QUARTER] @
                           frame_wave (cipher_bits c \<lparr>seed = iv, pos = 8\<rparr> 0x39 6),
                   lfsr := \<lparr>seed = iv, pos = 14\<rparr>\<rparr>)"
        by blast
      with 2 show ?thesis
        by (intro exI [of _ n]) (auto simp: front)
    next
      case 3
      then show ?thesis
        by (intro exI [of _ "Suc w"]) (simp add: front s7_def type_heard_def)
    qed
  qed
  then obtain n where n: "Suc w \<le> n" "handshake c iv s =
       Some (ct, s\<lparr>reads := n, ssc_rx := drop 60 (ssc_rx s), dbg := dbg s @ m,
                 wire := wire s @ frame_wave (cipher_bits c \<lparr>seed = 0, pos = 0\<rparr> (ucast iv) 7) @
                         [Stamp, Until TAG_FRAME_WAIT, Conf HF_READER_RX_XCORR_848_KHZ_QUARTER] @
                         (if ct = 0x0D then frame_wave (cipher_bits c \<lparr>seed = iv, pos = 8\<rparr> 0x19 6)
                          else if ct = 0x1D \<or> ct = 0x3D
                            then frame_wave (cipher_bits c \<lparr>seed = iv, pos = 8\<rparr> 0x39 6)
                          else []),
                 lfsr := \<lparr>seed = iv,
                          pos = (if ct = 0x0D \<or> ct = 0x1D \<or> ct = 0x3D then 14 else 8)\<rparr>\<rparr>)"
    by blast
  have a: "tx_frame c (ucast iv) 7 (legic_prng_init 0 s) = Some (iv_sent c iv s n2)"
    using tx' by (simp add: s1_def s2_def)
  have b: "rx_frame c 6 (listening c iv s w) = Some (ct, type_heard c iv s w m)"
    using rx' by (simp add: s6_def s7_def)
  show ?thesis
    using a waited b front [unfolded s7_def] n by blast
qed

lemma handshake_run:
  assumes "live (timer s)" and "60 \<le> length (ssc_rx s)"
    and "ct = rx_value c \<lparr>seed = iv, pos = 2\<rparr> (input_threshold s) (ssc_rx s) 6"
    and "ack = (if ct = 0x0D then frame_wave (cipher_bits c \<lparr>seed = iv, pos = 8\<rparr> 0x19 6)
                else if ct = 0x1D \<or> ct = 0x3D
                  then frame_wave (cipher_bits c \<lparr>seed = iv, pos = 8\<rparr> 0x39 6)
                else [])"
  shows "\<exists>n m. handshake c iv s =
     Some (ct, s\<lparr>reads := n, ssc_rx := drop 60 (ssc_rx s), dbg := dbg s @ m,
                 wire := wire s @ frame_wave (cipher_bits c \<lparr>seed = 0, pos = 0\<rparr> (ucast iv) 7) @
                         [Stamp, Until TAG_FRAME_WAIT, Conf HF_READER_RX_XCORR_848_KHZ_QUARTER] @
                         ack,
                 lfsr := \<lparr>seed = iv,
                          pos = (if ct = 0x0D \<or> ct = 0x1D \<or> ct = 0x3D then 14 else 8)\<rparr>\<rparr>)"
  using handshake_stages [OF assms(1,2,3)] unfolding assms(4) by blast

lemma ack_frames_differ: "cipher_bits c g 0x19 6 \<noteq> cipher_bits c g 0x39 6"
proof
  assume "cipher_bits c g 0x19 6 = cipher_bits c g 0x39 6"
  then have "cipher_bits c g 0x19 6 ! 5 = cipher_bits c g 0x39 6 ! 5"
    by simp
  then show False
    by (simp add: cipher_bits_def)
qed

text \<open>
  A 7-bit frame carries the low 7 bits of the vector, while \<^verbatim>\<open>legic_prng_init(iv)\<close> takes
  the whole \<^verbatim>\<open>uint8_t\<close>: the value sent and the seed are the same for a vector below 128.
\<close>

lemma iv_frame_low_bits:
  "cipher_bits c g (ucast (iv :: 8 word)) 7 = cipher_bits c g (ucast (iv AND 0x7f)) 7"
proof -
  have m: "(0x7f :: 8 word) = mask 7"
    by (simp add: mask_eq_exp_minus_1)
  have "bit (ucast iv :: 32 word) j = bit (ucast (iv AND 0x7f) :: 32 word) j" if "j < 7" for j
    using that unfolding m by (auto simp: bit_simps)
  then show ?thesis
    by (simp add: cipher_bits_def)
qed

lemma iv_fits: "iv < 128 \<Longrightarrow> ucast (take_bit 7 (ucast iv :: 32 word)) = (iv :: 8 word)"
proof -
  assume "iv < 128"
  then have "iv AND mask 7 = iv"
    using less_mask_eq [of iv 7] by simp
  then have "take_bit 7 iv = iv"
    by (simp add: take_bit_eq_mask)
  moreover have "ucast (take_bit 7 (ucast iv :: 32 word)) = take_bit 7 iv"
    by (rule bit_eqI) (auto simp: bit_simps)
  ultimately show ?thesis
    by simp
qed

text \<open>
  C4. The handshake after the calibration, for an initialisation vector of 7 bits, with a
  live timer and the 60 bytes of the card's answer arriving. In this order:
  the keystream is reset to seed 0 and \<^verbatim>\<open>tx_frame\<close> puts the vector on the line as a
  7-bit frame (the 7 bits sent are the whole vector), returning after \<open>n2\<close> readings of
  the timer; reading \<open>n2\<close> is the time stamp; the keystream is re-seeded with the vector
  and advanced by 2; every reading after the stamp and before reading \<open>w\<close> is below the
  stamp plus 330, reading \<open>w\<close> is not, so that at least 330 microseconds have gone by on
  a timer that does not wrap; only then, with exactly these readings taken, \<^verbatim>\<open>rx_frame\<close>
  is entered and decodes the 6-bit card type under the keystream of seed \<open>iv\<close> from
  position 2. The handshake ends with the acknowledgment sent from the state in which
  the reception returned: the 6-bit frame 0x19 for card type 0x0d, 0x39 for 0x1d and
  0x3d (the two differ on the line), under the keystream from position 8, and no frame
  at all for any other type.
\<close>

theorem handshake_sequence:
  assumes "live (timer s)" and "60 \<le> length (ssc_rx s)" and "iv < 128"
    and "ct = rx_value c \<lparr>seed = iv, pos = 2\<rparr> (input_threshold s) (ssc_rx s) 6"
  shows "(\<exists>n2 w m n.
     tx_frame c (ucast iv) 7 (legic_prng_init 0 s) = Some (iv_sent c iv s n2) \<and>
     waited (timer s) n2 330 w \<and>
     (unat (timer s n2) + 330 < 2 ^ 32 \<longrightarrow> unat (timer s n2) + 330 \<le> unat (timer s w)) \<and>
     rx_frame c 6 (listening c iv s w) = Some (ct, type_heard c iv s w m) \<and>
     handshake c iv s =
       (if ct = 0x0D then tx_frame c 0x19 6 (type_heard c iv s w m)
        else if ct = 0x1D \<or> ct = 0x3D then tx_frame c 0x39 6 (type_heard c iv s w m)
        else Some (type_heard c iv s w m)) \<bind> (\<lambda>s8. Some (ct, s8)) \<and>
     Suc w \<le> n \<and>
     handshake c iv s =
       Some (ct, s\<lparr>reads := n, ssc_rx := drop 60 (ssc_rx s), dbg := dbg s @ m,
                 wire := wire s @ frame_wave (cipher_bits c \<lparr>seed = 0, pos = 0\<rparr> (ucast iv) 7) @
                         [Stamp, Until 330, Conf HF_READER_RX_XCORR_848_KHZ_QUARTER] @
                         (if ct = 0x0D then frame_wave (cipher_bits c \<lparr>seed = iv, pos = 8\<rparr> 0x19 6)
                          else if ct = 0x1D \<or> ct = 0x3D
                            then frame_wave (cipher_bits c \<lparr>seed = iv, pos = 8\<rparr> 0x39 6)
                          else []),
                 lfsr := \<lparr>seed = iv,
                          pos = (if ct = 0x0D \<or> ct = 0x1D \<or> ct = 0x3D then 14 else 8)\<rparr>\<rparr>)) \<and>
     ucast (take_bit 7 (ucast iv :: 32 word)) = iv \<and>
     cipher_bits c \<lparr>seed = iv, pos = 8\<rparr> 0x19 6 \<noteq> cipher_bits c \<lparr>seed = iv, pos = 8\<rparr> 0x39 6"
proof -
  from handshake_stages [OF assms(1,2,4)] obtain n2 w m n where st:
     "tx_frame c (ucast iv) 7 (legic_prng_init 0 s) = Some (iv_sent c iv s n2)"
     "waited (timer s) n2 TAG_FRAME_WAIT w"
     "rx_frame c 6 (listening c iv s w) = Some (ct, type_heard c iv s w m)"
     "handshake c iv s =
       (if ct = 0x0D then tx_frame c 0x19 6 (type_heard c iv s w m)
        else if ct = 0x1D \<or> ct = 0x3D then tx_frame c 0x39 6 (type_heard c iv s w m)
        else Some (type_heard c iv s w m)) \<bind> (\<lambda>s8. Some (ct, s8))"
     "Suc w \<le> n"
     "handshake c iv s =
       Some (ct, s\<lparr>reads := n, ssc_rx := drop 60 (ssc_rx s), dbg := dbg s @ m,
                 wire := wire s @ frame_wave (cipher_bits c \<lparr>seed = 0, pos = 0\<rparr> (ucast iv) 7) @
                         [Stamp, Until TAG_FRAME_WAIT, Conf HF_READER_RX_XCORR_848_KHZ_QUARTER] @
                         (if ct = 0x0D then frame_wave (cipher_bits c \<lparr>seed = iv, pos = 8\<rparr> 0x19 6)
                          else if ct = 0x1D \<or> ct = 0x3D
                            then frame_wave (cipher_bits c \<lparr>seed = iv, pos = 8\<rparr> 0x39 6)
                          else []),
                 lfsr := \<lparr>seed = iv,
                          pos = (if ct = 0x0D \<or> ct = 0x1D \<or> ct = 0x3D then 14 else 8)\<rparr>\<rparr>)"
    by blast
  have el: "unat (timer s n2) + 330 < 2 ^ 32 \<longrightarrow> unat (timer s n2) + 330 \<le> unat (timer s w)"
    using waited_elapsed [OF st(2)] by (simp add: TAG_FRAME_WAIT_def)
  have w: "waited (timer s) n2 330 w"
    using st(2) by (simp add: TAG_FRAME_WAIT_def)
  have fin: "handshake c iv s =
       Some (ct, s\<lparr>reads := n, ssc_rx := drop 60 (ssc_rx s), dbg := dbg s @ m,
                 wire := wire s @ frame_wave (cipher_bits c \<lparr>seed = 0, pos = 0\<rparr> (ucast iv) 7) @
                         [Stamp, Until 330, Conf HF_READER_RX_XCORR_848_KHZ_QUARTER] @
                         (if ct = 0x0D then frame_wave (cipher_bits c \<lparr>seed = iv, pos = 8\<rparr> 0x19 6)
                          else if ct = 0x1D \<or> ct = 0x3D
                            then frame_wave (cipher_bits c \<lparr>seed = iv, pos = 8\<rparr> 0x39 6)
                          else []),
                 lfsr := \<lparr>seed = iv,
                          pos = (if ct = 0x0D \<or> ct = 0x1D \<or> ct = 0x3D then 14 else 8)\<rparr>\<rparr>)"
    using st(6) by (simp only: TAG_FRAME_WAIT_def)
  from st(1) w el st(3,4,5) fin iv_fits [OF assms(3)] ack_frames_differ [of c "\<lparr>seed = iv, pos = 8\<rparr>"]
  show ?thesis by blast
qed

subsection \<open>Bulk read\<close>

lemma read_byte_step:
  assumes "live (timer s)" and "120 \<le> length (ssc_rx s)"
  shows "\<exists>n m. read_byte c addr (cmdsize (card s)) s =
     Some (if crc_ok c addr s 0 then uint (ucast (response c s 0) :: 8 word) else - 1,
           s\<lparr>reads := n, ssc_rx := drop 120 (ssc_rx s),
             wire := wire s @ read_wave c addr s 0,
             lfsr := (lfsr s)\<lparr>pos := pos (lfsr s) + unat (cmdsize (card s)) + 12\<rparr>,
             dbg := dbg s @ m\<rparr>)"
proof -
  define cmd where "cmd = push_bit 1 addr OR LEGIC_READ"
  define frame where "frame = rx_value c ((lfsr s)\<lparr>pos := pos (lfsr s) + unat (cmdsize (card s))\<rparr>)
                   (input_threshold s) (ssc_rx s) 12"
  define byte where "byte = (ucast frame :: 8 word)"
  define crc where "crc = (ucast (drop_bit 8 frame) :: 8 word)"
  define calc where "calc = crc4 c (push_bit (unat (cmdsize (card s))) (ucast byte) OR ucast cmd)
                       (8 + unat (cmdsize (card s)))"
  have fr: "response c s 0 = frame"
    by (simp add: response_def frame_def)
  have ok: "crc_ok c addr s 0 \<longleftrightarrow> calc = crc"
    unfolding crc_ok_def fr calc_crc4_def calc_def byte_def crc_def cmd_def by simp
  have rw: "read_wave c addr s 0 =
      frame_wave (cipher_bits c (lfsr s) (ucast cmd) (unat (cmdsize (card s)))) @
      [Conf HF_READER_RX_XCORR_848_KHZ_QUARTER]"
    unfolding read_wave_def cmd_def by simp
  from read_byte_run [OF assms cmd_def frame_def byte_def crc_def calc_def]
  obtain n m where rb: "read_byte c addr (cmdsize (card s)) s =
            Some (if calc \<noteq> crc then - 1 else uint byte,
                  s\<lparr>reads := n, ssc_rx := drop 120 (ssc_rx s),
                    wire := wire s @ frame_wave (cipher_bits c (lfsr s) (ucast cmd)
                              (unat (cmdsize (card s)))) @
                            [Conf HF_READER_RX_XCORR_848_KHZ_QUARTER],
                    lfsr := (lfsr s)\<lparr>pos := pos (lfsr s) + unat (cmdsize (card s)) + 12\<rparr>,
                    dbg := dbg s @ m @
                      (if calc \<noteq> crc
                       then [(''!!! crc mismatch: %x != %x !!!'', [uint calc, uint crc])]
                       else [])\<rparr>)"
    by blast
  have "read_byte c addr (cmdsize (card s)) s =
     Some (if crc_ok c addr s 0 then uint (ucast (response c s 0) :: 8 word) else - 1,
           s\<lparr>reads := n, ssc_rx := drop 120 (ssc_rx s),
             wire := wire s @ read_wave c addr s 0,
             lfsr := (lfsr s)\<lparr>pos := pos (lfsr s) + unat (cmdsize (card s)) + 12\<rparr>,
             dbg := dbg s @ (m @
                      (if calc \<noteq> crc
                       then [(''!!! crc mismatch: %x != %x !!!'', [uint calc, uint crc])]
                       else []))\<rparr>)"
    unfolding rb ok rw fr byte_def by simp
  then show ?thesis by blast
qed

lemma response_shift:
  assumes "ssc_rx s' = drop 120 (ssc_rx s)"
    and "lfsr s' = (lfsr s)\<lparr>pos := pos (lfsr s) + unat (cmdsize (card s)) + 12\<rparr>"
    and "card s' = card s" and "input_threshold s' = input_threshold s"
  shows "response c s' k = response c s (Suc k)"
proof -
  have "120 * k + 120 = 120 * Suc k" by simp
  then show ?thesis
    by (simp add: response_def assms Let_def add.commute add.left_commute algebra_simps)
qed

lemma crc_ok_shift:
  assumes "ssc_rx s' = drop 120 (ssc_rx s)"
    and "lfsr s' = (lfsr s)\<lparr>pos := pos (lfsr s) + unat (cmdsize (card s)) + 12\<rparr>"
    and "card s' = card s" and "input_threshold s' = input_threshold s"
  shows "crc_ok c (addr + 1) s' k = crc_ok c addr s (Suc k)"
proof -
  have a: "addr + 1 + of_nat k = addr + of_nat (Suc k)"
    by simp
  show ?thesis
    unfolding crc_ok_def response_shift [OF assms] assms(3) a ..
qed

lemma read_wave_shift:
  assumes "lfsr s' = (lfsr s)\<lparr>pos := pos (lfsr s) + unat (cmdsize (card s)) + 12\<rparr>"
    and "card s' = card s"
  shows "read_wave c (addr + 1) s' k = read_wave c addr s (Suc k)"
proof -
  have a: "addr + 1 + of_nat k = addr + of_nat (Suc k)"
    by simp
  have b: "(lfsr s)\<lparr>pos := pos (lfsr s) + unat (cmdsize (card s)) + 12,
             pos := pos ((lfsr s)\<lparr>pos := pos (lfsr s) + unat (cmdsize (card s)) + 12\<rparr>) +
                    k * (unat (cmdsize (card s)) + 12)\<rparr> =
           (lfsr s)\<lparr>pos := pos (lfsr s) + Suc k * (unat (cmdsize (card s)) + 12)\<rparr>"
    by simp
  show ?thesis
    unfolding read_wave_def assms a Let_def b ..
qed


lemma read_loop_abort:
  assumes "live (timer s)" and "i + j < len" and "120 * Suc j \<le> length (ssc_rx s)"
    and "\<forall>k<j. crc_ok c (offset + of_nat i) s k"
    and "\<not> crc_ok c (offset + of_nat i) s j"
  shows "\<exists>n m. read_loop c offset len i s =
     Some (False,
       s\<lparr>reads := n, ssc_rx := drop (120 * Suc j) (ssc_rx s), dbg := dbg s @ m,
         wire := wire s @ concat (map (read_wave c (offset + of_nat i) s) [0..<Suc j]),
         lfsr := (lfsr s)\<lparr>pos := pos (lfsr s) + Suc j * (unat (cmdsize (card s)) + 12)\<rparr>,
         legic_mem := (\<lambda>a. if i \<le> a \<and> a < i + j then ucast (response c s (a - i))
                            else legic_mem s a),
         host := host s @ [failure_ack]\<rparr>)"
  using assms
proof (induction j arbitrary: i s)
  case 0
  have lt: "i < len" using "0.prems"(2) by simp
  have len: "120 \<le> length (ssc_rx s)" using "0.prems"(3) by simp
  from read_byte_step [OF "0.prems"(1) len, of c "offset + of_nat i"] "0.prems"(5)
  obtain n m where rb: "read_byte c (offset + of_nat i) (cmdsize (card s)) s =
     Some (- 1,
           s\<lparr>reads := n, ssc_rx := drop 120 (ssc_rx s),
             wire := wire s @ read_wave c (offset + of_nat i) s 0,
             lfsr := (lfsr s)\<lparr>pos := pos (lfsr s) + unat (cmdsize (card s)) + 12\<rparr>,
             dbg := dbg s @ m\<rparr>)"
    by auto
  have "read_loop c offset len i s =
     Some (False,
       s\<lparr>reads := n, ssc_rx := drop (120 * Suc 0) (ssc_rx s), dbg := dbg s @ m,
         wire := wire s @ concat (map (read_wave c (offset + of_nat i) s) [0..<Suc 0]),
         lfsr := (lfsr s)\<lparr>pos := pos (lfsr s) + Suc 0 * (unat (cmdsize (card s)) + 12)\<rparr>,
         legic_mem := (\<lambda>a. if i \<le> a \<and> a < i + 0 then ucast (response c s (a - i))
                            else legic_mem s a),
         host := host s @ [failure_ack]\<rparr>)"
  proof -
    have e: "(\<lambda>a. if i \<le> a \<and> a < i + 0 then ucast (response c s (a - i))
                            else legic_mem s a) = legic_mem s"
      by (rule ext) auto
    show ?thesis
      unfolding e using lt
      by (subst read_loop.simps) (simp add: rb cmd_send_def failure_ack_def)
  qed
  then show ?case by blast
next
  case (Suc j)
  have lt: "i < len" using Suc.prems(2) by simp
  have len: "120 \<le> length (ssc_rx s)" using Suc.prems(3) by simp
  have ok0: "crc_ok c (offset + of_nat i) s 0"
    using Suc.prems(4) by simp
  define b0 where "b0 = (ucast (response c s 0) :: 8 word)"
  from read_byte_step [OF Suc.prems(1) len, of c "offset + of_nat i"] ok0
  obtain n1 m1 where rb: "read_byte c (offset + of_nat i) (cmdsize (card s)) s =
     Some (uint b0,
           s\<lparr>reads := n1, ssc_rx := drop 120 (ssc_rx s),
             wire := wire s @ read_wave c (offset + of_nat i) s 0,
             lfsr := (lfsr s)\<lparr>pos := pos (lfsr s) + unat (cmdsize (card s)) + 12\<rparr>,
             dbg := dbg s @ m1\<rparr>)"
    unfolding b0_def by auto
  define s1 where "s1 = s\<lparr>reads := n1, ssc_rx := drop 120 (ssc_rx s),
             wire := wire s @ read_wave c (offset + of_nat i) s 0,
             lfsr := (lfsr s)\<lparr>pos := pos (lfsr s) + unat (cmdsize (card s)) + 12\<rparr>,
             dbg := dbg s @ m1, legic_mem := (legic_mem s)(i := b0)\<rparr>"
  have s1: "timer s1 = timer s" "ssc_rx s1 = drop 120 (ssc_rx s)"
    "lfsr s1 = (lfsr s)\<lparr>pos := pos (lfsr s) + unat (cmdsize (card s)) + 12\<rparr>"
    "card s1 = card s" "input_threshold s1 = input_threshold s"
    "wire s1 = wire s @ read_wave c (offset + of_nat i) s 0"
    "dbg s1 = dbg s @ m1" "host s1 = host s" "legic_mem s1 = (legic_mem s)(i := b0)"
    by (simp_all add: s1_def)
  have nz: "uint b0 \<noteq> - 1"
    using uint_nonnegative [of b0] by linarith
  have step: "read_loop c offset len i s = read_loop c offset len (Suc i) s1"
    using lt nz by (subst read_loop.simps) (simp add: rb s1_def)
  have addr: "offset + of_nat (Suc i) = offset + of_nat i + 1"
    by simp
  note sh = s1(2,3,4,5)
  have p1: "live (timer s1)" using Suc.prems(1) by (simp add: s1)
  have p2: "Suc i + j < len" using Suc.prems(2) by simp
  have p3: "120 * Suc j \<le> length (ssc_rx s1)" using Suc.prems(3) by (simp add: s1)
  have p4: "\<forall>k<j. crc_ok c (offset + of_nat (Suc i)) s1 k"
    unfolding addr crc_ok_shift [OF sh] using Suc.prems(4) by auto
  have p5: "\<not> crc_ok c (offset + of_nat (Suc i)) s1 j"
    unfolding addr crc_ok_shift [OF sh] using Suc.prems(5) by simp
  from Suc.IH [OF p1 p2 p3 p4 p5] obtain n m where run:
    "read_loop c offset len (Suc i) s1 =
     Some (False,
       s1\<lparr>reads := n, ssc_rx := drop (120 * Suc j) (ssc_rx s1), dbg := dbg s1 @ m,
         wire := wire s1 @ concat (map (read_wave c (offset + of_nat (Suc i)) s1) [0..<Suc j]),
         lfsr := (lfsr s1)\<lparr>pos := pos (lfsr s1) + Suc j * (unat (cmdsize (card s1)) + 12)\<rparr>,
         legic_mem := (\<lambda>a. if Suc i \<le> a \<and> a < Suc i + j then ucast (response c s1 (a - Suc i))
                            else legic_mem s1 a),
         host := host s1 @ [failure_ack]\<rparr>)"
    by blast
  have e_ssc: "drop (120 * Suc j) (ssc_rx s1) = drop (120 * Suc (Suc j)) (ssc_rx s)"
    by (simp add: s1 add.commute)
  have e_wire: "wire s1 @ concat (map (read_wave c (offset + of_nat (Suc i)) s1) [0..<Suc j]) =
      wire s @ concat (map (read_wave c (offset + of_nat i) s) [0..<Suc (Suc j)])"
    unfolding addr read_wave_shift [OF s1(3,4)] s1(6)
    by (simp add: map_upt_Suc [of _ "Suc j"] del: upt_Suc)
  have e_lfsr: "(lfsr s1)\<lparr>pos := pos (lfsr s1) + Suc j * (unat (cmdsize (card s1)) + 12)\<rparr> =
      (lfsr s)\<lparr>pos := pos (lfsr s) + Suc (Suc j) * (unat (cmdsize (card s)) + 12)\<rparr>"
    by (simp add: s1)
  have e_mem: "(\<lambda>a. if Suc i \<le> a \<and> a < Suc i + j then ucast (response c s1 (a - Suc i))
                            else legic_mem s1 a) =
      (\<lambda>a. if i \<le> a \<and> a < i + Suc j then ucast (response c s (a - i)) else legic_mem s a)"
  proof
    fix a
    show "(if Suc i \<le> a \<and> a < Suc i + j then ucast (response c s1 (a - Suc i))
           else legic_mem s1 a) =
          (if i \<le> a \<and> a < i + Suc j then ucast (response c s (a - i)) else legic_mem s a)"
    proof (cases "Suc i \<le> a")
      case True
      then have "Suc (a - Suc i) = a - i" by simp
      with True show ?thesis
        by (simp add: response_shift [OF sh] s1)
    next
      case False
      then show ?thesis
        by (auto simp: s1 b0_def)
    qed
  qed
  have "read_loop c offset len i s =
     Some (False,
       s\<lparr>reads := n, ssc_rx := drop (120 * Suc (Suc j)) (ssc_rx s), dbg := dbg s @ (m1 @ m),
         wire := wire s @ concat (map (read_wave c (offset + of_nat i) s) [0..<Suc (Suc j)]),
         lfsr := (lfsr s)\<lparr>pos := pos (lfsr s) + Suc (Suc j) * (unat (cmdsize (card s)) + 12)\<rparr>,
         legic_mem := (\<lambda>a. if i \<le> a \<and> a < i + Suc j then ucast (response c s (a - i))
                            else legic_mem s a),
         host := host s @ [failure_ack]\<rparr>)"
    unfolding step run e_ssc e_wire e_lfsr e_mem by (simp add: s1 s1_def)
  then show ?case by blast
qed

subsection \<open>What the radio layers keep\<close>

lemma kept_refl [simp]: "kept s s"
  by (simp add: kept_def)

lemma kept_trans: "kept s s1 \<Longrightarrow> kept s1 s2 \<Longrightarrow> kept s s2"
  by (simp add: kept_def)

lemma busy_loop_kept:
  assumes "busy_loop d s = Some s'"
  shows "kept s s'"
proof (rule busy_loop.raw_induct [where P = "\<lambda>d s s'. kept s s'", OF _ assms], goal_cases)
  case (1 f deadline s y)
  show ?case
  proof (cases "timer s (reads s) < deadline")
    case True
    with 1(2) have "f deadline (s\<lparr>reads := Suc (reads s)\<rparr>) = Some y"
      by (simp add: GetCountUS_def)
    from 1(1) [OF this] show ?thesis
      by (simp add: kept_def)
  next
    case False
    with 1(2) show ?thesis
      by (auto simp: GetCountUS_def kept_def)
  qed
qed

lemma busy_wait_kept: "busy_wait ts d s = Some s' \<Longrightarrow> kept s s'"
  by (auto simp: busy_wait_def emit_def kept_def split: bind_splits dest!: busy_loop_kept)

lemma tx_bit_kept: "tx_bit b s = Some s' \<Longrightarrow> kept s s'"
  by (auto simp: tx_bit_def stamp_def GetCountUS_def LOW_def HIGH_def emit_def Let_def kept_def
      split: bind_splits if_splits dest!: busy_wait_kept)

lemma tx_frame_loop_kept: "tx_frame_loop c frame len i s = Some s' \<Longrightarrow> kept s s'"
proof (induction c frame len i s rule: tx_frame_loop.induct)
  case (1 c frame len i s)
  show ?case
  proof (cases "i < len")
    case True
    with "1.prems" obtain s1 where s1: "tx_bit (bit frame i \<noteq> legic_prng_get_bit c s) s = Some s1"
      and rest: "tx_frame_loop c frame len (Suc i) (legic_prng_forward 1 s1) = Some s'"
      by (subst (asm) tx_frame_loop.simps) (auto split: bind_splits)
    have "kept (legic_prng_forward 1 s1) s'"
      using "1.IH" [OF True _ rest] s1 by simp
    with tx_bit_kept [OF s1] show ?thesis
      by (simp add: kept_def legic_prng_forward_def)
  next
    case False
    with "1.prems" show ?thesis
      by (subst (asm) tx_frame_loop.simps) simp
  qed
qed

lemma tx_frame_kept: "tx_frame c frame len s = Some s' \<Longrightarrow> kept s s'"
  by (auto simp: tx_frame_def stamp_def GetCountUS_def LOW_def HIGH_def emit_def Let_def kept_def
      FpgaWriteConfWord_def
      split: bind_splits if_splits dest!: busy_wait_kept tx_frame_loop_kept)

lemma sample_power_kept: "sample_power s = Some (x, s') \<Longrightarrow> kept s s' \<and> input_threshold s' = input_threshold s"
  by (auto simp: sample_power_def rx_byte_from_fpga_def kept_def split: bind_splits list.splits)

lemma sample_powers_kept: "sample_powers n s = Some (xs, s') \<Longrightarrow> kept s s'"
proof (induction n arbitrary: s xs)
  case 0
  then show ?case by simp
next
  case (Suc n)
  from Suc.prems obtain x s1 xs' where 1: "sample_power s = Some (x, s1)"
    and 2: "sample_powers n s1 = Some (xs', s')"
    by (auto split: bind_splits)
  from sample_power_kept [OF 1] Suc.IH [OF 2] show ?case
    by (blast intro: kept_trans)
qed

lemma rx_bit_kept: "rx_bit s = Some (b, s') \<Longrightarrow> kept s s'"
  by (auto simp: rx_bit_def Dbprintf_def kept_def split: bind_splits if_splits
      dest!: sample_powers_kept)

lemma rx_frame_loop_kept: "rx_frame_loop c len i frame s = Some (v, s') \<Longrightarrow> kept s s'"
proof (induction c len i frame s rule: rx_frame_loop.induct)
  case (1 c len i frame s)
  show ?case
  proof (cases "i < len")
    case True
    with "1.prems" obtain b s1 where s1: "rx_bit s = Some (b, s1)"
      and rest: "rx_frame_loop c len (Suc i)
            (frame OR push_bit i (of_bool (b \<noteq> legic_prng_get_bit c s1)))
            (legic_prng_forward 1 s1) = Some (v, s')"
      by (subst (asm) rx_frame_loop.simps) (auto split: bind_splits)
    have "kept (legic_prng_forward 1 s1) s'"
      using "1.IH" [OF True _ _ rest] s1 by simp
    with rx_bit_kept [OF s1] show ?thesis
      by (simp add: kept_def legic_prng_forward_def)
  next
    case False
    with "1.prems" show ?thesis
      by (subst (asm) rx_frame_loop.simps) simp
  qed
qed

lemma rx_frame_kept: "rx_frame c len s = Some (v, s') \<Longrightarrow> kept s s'"
  by (auto simp: rx_frame_def FpgaWriteConfWord_def emit_def kept_def dest!: rx_frame_loop_kept)

lemma calibrate_kept:
  assumes "calibrate ts s = Some s'"
  shows "kept s s'"
proof (rule calibrate.raw_induct [where P = "\<lambda>ts s s'. kept s s'", OF _ assms], goal_cases)
  case (1 f ts s y)
  from 1(2) obtain x s1 where sp: "sample_power s = Some (x, s1)"
    by (auto split: option.splits)
  define s2 where "s2 = (if x > input_threshold s1 then s1\<lparr>input_threshold := x\<rparr> else s1)"
  define s3 where "s3 = s2\<lparr>reads := Suc (reads s2)\<rparr>"
  have k3: "kept s s3"
    using sample_power_kept [OF sp] by (simp add: s3_def s2_def kept_def)
  have alt: "(if timer s2 (reads s2) < ts + 5000 then f ts s3 else Some s3) = Some y"
    using 1(2) by (auto simp: sp GetCountUS_def s2_def s3_def split: if_splits)
  show ?case
  proof (cases "timer s2 (reads s2) < ts + 5000")
    case True
    with alt have "f ts s3 = Some y" by simp
    from k3 1(1) [OF this] show ?thesis
      by (rule kept_trans)
  next
    case False
    with alt have "y = s3" by simp
    with k3 show ?thesis by simp
  qed
qed

lemma calibrate_threshold_kept: "calibrate_threshold s = Some s' \<Longrightarrow> kept s s'"
  by (auto simp: calibrate_threshold_def stamp_def GetCountUS_def emit_def Let_def kept_def
      split: bind_splits dest!: calibrate_kept)

lemma handshake_kept: "handshake c iv s = Some (ct, s') \<Longrightarrow> kept s s'"
  by (auto simp: handshake_def stamp_def GetCountUS_def emit_def Let_def kept_def
      legic_prng_init_def legic_prng_forward_def
      split: bind_splits if_splits prod.splits
      dest!: tx_frame_kept busy_wait_kept rx_frame_kept)

lemma setup_phase_reader_kept: "setup_phase_reader c iv s = Some (ct, s') \<Longrightarrow> kept s s'"
  by (auto simp: setup_phase_reader_def split: bind_splits
      dest!: calibrate_threshold_kept handshake_kept intro: kept_trans)

subsection \<open>Bulk read: abort on a CRC failure\<close>

lemma LegicRfReader_abort:
  assumes "setup_phase_reader c iv (init_reader False s) = Some (ct, s1)"
    and "init_card (ucast ct) (card s1) = (0, cd)"
    and "n = unat (if unat len + unat offset > unat (cardsize cd) then cardsize cd - offset else len)"
    and "live (timer s1)"
    and "j < n" and "120 * Suc j \<le> length (ssc_rx s1)"
    and "\<forall>k<j. crc_ok c offset (s1\<lparr>card := cd\<rparr>) k"
    and "\<not> crc_ok c offset (s1\<lparr>card := cd\<rparr>) j"
  shows "\<exists>r m. LegicRfReader c offset len iv s =
     Some (s1\<lparr>card := cd, reads := r, ssc_rx := drop (120 * Suc j) (ssc_rx s1),
              dbg := dbg s1 @ m,
              wire := wire s1 @ concat (map (read_wave c offset (s1\<lparr>card := cd\<rparr>)) [0..<Suc j]) @
                      [Sys ''switch_off''],
              lfsr := (lfsr s1)\<lparr>pos := pos (lfsr s1) + Suc j * (unat (cmdsize cd) + 12)\<rparr>,
              legic_mem := (\<lambda>a. if a < j then ucast (response c (s1\<lparr>card := cd\<rparr>) a)
                                 else legic_mem s1 a),
              host := host s1 @ [failure_ack]\<rparr>)"
proof -
  define s2 where "s2 = s1\<lparr>card := cd\<rparr>"
  have s2: "timer s2 = timer s1" "ssc_rx s2 = ssc_rx s1" "card s2 = cd"
    by (simp_all add: s2_def)
  have p1: "live (timer s2)" using assms(4) by (simp add: s2)
  have p2: "0 + j < n" using assms(5) by simp
  have p3: "120 * Suc j \<le> length (ssc_rx s2)" using assms(6) by (simp add: s2)
  have p4: "\<forall>k<j. crc_ok c (offset + of_nat 0) s2 k" using assms(7) by (simp add: s2_def)
  have p5: "\<not> crc_ok c (offset + of_nat 0) s2 j" using assms(8) by (simp add: s2_def)
  from read_loop_abort [OF p1 p2 p3 p4 p5] obtain r m where loop:
    "read_loop c offset n 0 s2 =
     Some (False,
       s2\<lparr>reads := r, ssc_rx := drop (120 * Suc j) (ssc_rx s2), dbg := dbg s2 @ m,
         wire := wire s2 @ concat (map (read_wave c (offset + of_nat 0) s2) [0..<Suc j]),
         lfsr := (lfsr s2)\<lparr>pos := pos (lfsr s2) + Suc j * (unat (cmdsize (card s2)) + 12)\<rparr>,
         legic_mem := (\<lambda>a. if 0 \<le> a \<and> a < 0 + j then ucast (response c s2 (a - 0))
                            else legic_mem s2 a),
         host := host s2 @ [failure_ack]\<rparr>)"
    by blast
  have fin: "LegicRfReader c offset len iv s =
     read_loop c offset n 0 s2 \<bind>
       (\<lambda>(ok, s3). if ok
          then Some (switch_off (cmd_send 1 n 0 (map (legic_mem s3) [0..<n]) s3))
          else Some (switch_off s3))"
  proof (cases "unat (cardsize cd) < unat len + unat offset")
    case True
    then have "n = unat (cardsize cd - offset)"
      using assms(3) by simp
    with True show ?thesis
      by (simp add: LegicRfReader_def assms(1,2) Let_def s2_def cong: if_cong)
  next
    case False
    then have "n = unat len"
      using assms(3) by simp
    with False show ?thesis
      by (simp add: LegicRfReader_def assms(1,2) Let_def s2_def cong: if_cong)
  qed
  have "LegicRfReader c offset len iv s =
     Some (s1\<lparr>card := cd, reads := r, ssc_rx := drop (120 * Suc j) (ssc_rx s1),
              dbg := dbg s1 @ m,
              wire := wire s1 @ concat (map (read_wave c offset (s1\<lparr>card := cd\<rparr>)) [0..<Suc j]) @
                      [Sys ''switch_off''],
              lfsr := (lfsr s1)\<lparr>pos := pos (lfsr s1) + Suc j * (unat (cmdsize cd) + 12)\<rparr>,
              legic_mem := (\<lambda>a. if a < j then ucast (response c (s1\<lparr>card := cd\<rparr>) a)
                                 else legic_mem s1 a),
              host := host s1 @ [failure_ack]\<rparr>)"
    unfolding fin loop by (simp add: switch_off_def emit_def s2_def cong: if_cong)
  then show ?thesis by blast
qed

text \<open>
  C9. A bulk read whose handshake has returned with a supported card, with a live timer.
  Let the clamped length be \<open>n\<close>, let the CRC of the first \<open>j\<close> responses agree and the
  CRC of response \<open>j\<close> (\<open>j < n\<close>) fail. Then the operation returns, and the host gets
  exactly one acknowledgment, the failure with no data. The read stops at once: exactly
  \<open>j + 1\<close> responses are taken from the receiver, exactly \<open>j + 1\<close> read commands are on
  the line before the switch-off. The \<open>j\<close> bytes read before are in the card memory
  and are not reported.
\<close>

theorem bulk_read_crc_failure:
  assumes "setup_phase_reader c iv (init_reader False s) = Some (ct, s1)"
    and "init_card (ucast ct) (card s1) = (0, cd)"
    and "n = unat (if unat len + unat offset > unat (cardsize cd) then cardsize cd - offset else len)"
    and "live (timer s)"
    and "j < n" and "120 * Suc j \<le> length (ssc_rx s1)"
    and "\<forall>k<j. crc_ok c offset (s1\<lparr>card := cd\<rparr>) k"
    and "\<not> crc_ok c offset (s1\<lparr>card := cd\<rparr>) j"
  shows "\<exists>s'. LegicRfReader c offset len iv s = Some s' \<and>
           host s' = host s @ [\<lparr>arg0 = 0, arg1 = 0, arg2 = 0, payload = []\<rparr>] \<and>
           ssc_rx s' = drop (120 * Suc j) (ssc_rx s1) \<and>
           wire s' = wire s1 @ concat (map (read_wave c offset (s1\<lparr>card := cd\<rparr>)) [0..<Suc j]) @
                     [Sys ''switch_off''] \<and>
           (\<forall>k<j. legic_mem s' k = ucast (response c (s1\<lparr>card := cd\<rparr>) k))"
proof -
  have k: "kept (init_reader False s) s1"
    by (rule setup_phase_reader_kept [OF assms(1)])
  have t: "timer (init_reader False s) = timer s" and h: "host (init_reader False s) = host s"
    by (simp_all add: init_reader_def Let_def emit_def HIGH_def FpgaWriteConfWord_def)
  have l: "live (timer s1)"
    using assms(4) k by (simp add: kept_def t)
  have hs: "host s1 = host s"
    using k by (simp add: kept_def h)
  from LegicRfReader_abort [OF assms(1-3) l assms(5-8)] obtain r m where
    "LegicRfReader c offset len iv s =
     Some (s1\<lparr>card := cd, reads := r, ssc_rx := drop (120 * Suc j) (ssc_rx s1),
              dbg := dbg s1 @ m,
              wire := wire s1 @ concat (map (read_wave c offset (s1\<lparr>card := cd\<rparr>)) [0..<Suc j]) @
                      [Sys ''switch_off''],
              lfsr := (lfsr s1)\<lparr>pos := pos (lfsr s1) + Suc j * (unat (cmdsize cd) + 12)\<rparr>,
              legic_mem := (\<lambda>a. if a < j then ucast (response c (s1\<lparr>card := cd\<rparr>) a)
                                 else legic_mem s1 a),
              host := host s1 @ [failure_ack]\<rparr>)"
    by blast
  then show ?thesis
    by (simp add: hs failure_ack_def)
qed

subsection \<open>The set-up phase as a whole, and on the bench\<close>

lemma setup_phase_reader_run:
  assumes "\<forall>j<k. timer s (Suc (reads s) + j) < timer s (reads s) + 5000"
    and "\<not> timer s (Suc (reads s) + k) < timer s (reads s) + 5000"
    and "2 * Suc k + 60 \<le> length (ssc_rx s)"
    and "live (timer s)"
    and "thr = 2 * max (Max (set (take (Suc k) (amplitudes (ssc_rx s))))) 8"
    and "ct = rx_value c \<lparr>seed = iv, pos = 2\<rparr> thr (drop (2 * Suc k) (ssc_rx s)) 6"
    and "ack = (if ct = 0x0D then frame_wave (cipher_bits c \<lparr>seed = iv, pos = 8\<rparr> 0x19 6)
                else if ct = 0x1D \<or> ct = 0x3D
                  then frame_wave (cipher_bits c \<lparr>seed = iv, pos = 8\<rparr> 0x39 6)
                else [])"
  shows "\<exists>n m. setup_phase_reader c iv s =
     Some (ct, s\<lparr>reads := n, ssc_rx := drop (2 * Suc k + 60) (ssc_rx s),
                 input_threshold := thr, dbg := dbg s @ m,
                 wire := wire s @ [Stamp, Until 5000] @
                         frame_wave (cipher_bits c \<lparr>seed = 0, pos = 0\<rparr> (ucast iv) 7) @
                         [Stamp, Until TAG_FRAME_WAIT, Conf HF_READER_RX_XCORR_848_KHZ_QUARTER] @
                         ack,
                 lfsr := \<lparr>seed = iv,
                          pos = (if ct = 0x0D \<or> ct = 0x1D \<or> ct = 0x3D then 14 else 8)\<rparr>\<rparr>)"
proof -
  have len: "2 * Suc k \<le> length (ssc_rx s)"
    using assms(3) by simp
  define s1 where "s1 = s\<lparr>ssc_rx := drop (2 * Suc k) (ssc_rx s), reads := reads s + k + 2,
                   input_threshold := thr, wire := wire s @ [Stamp, Until 5000]\<rparr>"
  have cal: "calibrate_threshold s = Some s1"
    unfolding s1_def assms(5) by (rule calibrate_threshold_run [OF assms(1,2) len refl])
  have s1: "timer s1 = timer s" "ssc_rx s1 = drop (2 * Suc k) (ssc_rx s)"
    "input_threshold s1 = thr" "dbg s1 = dbg s" "wire s1 = wire s @ [Stamp, Until 5000]"
    by (simp_all add: s1_def)
  have p1: "live (timer s1)" using assms(4) by (simp add: s1)
  have p2: "60 \<le> length (ssc_rx s1)" using assms(3) by (simp add: s1)
  have p3: "ct = rx_value c \<lparr>seed = iv, pos = 2\<rparr> (input_threshold s1) (ssc_rx s1) 6"
    by (simp add: s1 assms(6))
  from handshake_run [OF p1 p2 p3 assms(7)] obtain n m where
    "handshake c iv s1 =
     Some (ct, s1\<lparr>reads := n, ssc_rx := drop 60 (ssc_rx s1), dbg := dbg s1 @ m,
                 wire := wire s1 @ frame_wave (cipher_bits c \<lparr>seed = 0, pos = 0\<rparr> (ucast iv) 7) @
                         [Stamp, Until TAG_FRAME_WAIT, Conf HF_READER_RX_XCORR_848_KHZ_QUARTER] @
                         ack,
                 lfsr := \<lparr>seed = iv,
                          pos = (if ct = 0x0D \<or> ct = 0x1D \<or> ct = 0x3D then 14 else 8)\<rparr>\<rparr>)"
    by blast
  then have "setup_phase_reader c iv s =
     Some (ct, s\<lparr>reads := n, ssc_rx := drop (2 * Suc k + 60) (ssc_rx s),
                 input_threshold := thr, dbg := dbg s @ m,
                 wire := wire s @ [Stamp, Until 5000] @
                         frame_wave (cipher_bits c \<lparr>seed = 0, pos = 0\<rparr> (ucast iv) 7) @
                         [Stamp, Until TAG_FRAME_WAIT, Conf HF_READER_RX_XCORR_848_KHZ_QUARTER] @
                         ack,
                 lfsr := \<lparr>seed = iv,
                          pos = (if ct = 0x0D \<or> ct = 0x1D \<or> ct = 0x3D then 14 else 8)\<rparr>\<rparr>)"
    by (simp add: setup_phase_reader_def cal s1 add.commute) (simp add: s1_def)
  then show ?thesis by blast
qed

lemma init_reader_bench:
  "init_reader False (bench bs t) =
     (bench bs t)\<lparr>wire := [Sys ''FpgaDownloadAndGo'', Conf HF_READER_RX_XCORR_848_KHZ_QUARTER,
        Sys ''SetAdcMuxFor'', Sys ''FpgaSetupSsc'', Pin True, Sys ''clear_trace'',
        Sys ''set_tracing'', Sys ''crc_init'', Sys ''StartCountUS'']\<rparr>"
  by (simp add: init_reader_def bench_def Let_def emit_def HIGH_def FpgaWriteConfWord_def
      LEGIC_CARD_MEMSIZE_def cong: if_cong)

lemma bench_setup:
  "\<exists>n m. setup_phase_reader bench_collab 1 (init_reader False (bench (card_0d_bytes @ rest) 0)) =
     Some (0x0D, (bench rest 16)\<lparr>reads := n, dbg := m,
        wire := [Sys ''FpgaDownloadAndGo'', Conf HF_READER_RX_XCORR_848_KHZ_QUARTER,
                 Sys ''SetAdcMuxFor'', Sys ''FpgaSetupSsc'', Pin True, Sys ''clear_trace'',
                 Sys ''set_tracing'', Sys ''crc_init'', Sys ''StartCountUS'',
                 Stamp, Until 5000] @
                frame_wave [True, False, False, False, False, False, False] @
                [Stamp, Until 330, Conf HF_READER_RX_XCORR_848_KHZ_QUARTER] @
                frame_wave [True, False, False, True, True, False],
        lfsr := \<lparr>seed = 1, pos = 14\<rparr>\<rparr>)"
proof -
  define s where "s = init_reader False (bench (card_0d_bytes @ rest) 0)"
  have s: "timer s = timer (bench rest 16)" "reads s = 0"
    "ssc_rx s = 0 # 0 # channel [True, False, True, True, False, False] @ rest"
    unfolding s_def init_reader_bench by (simp_all add: bench_def card_0d_bytes_def)
  have 1: "\<forall>j<0. timer s (Suc (reads s) + j) < timer s (reads s) + 5000"
    by simp
  have 2: "\<not> timer s (Suc (reads s) + 0) < timer s (reads s) + 5000"
    by (simp add: s bench_def)
  have 3: "2 * Suc 0 + 60 \<le> length (ssc_rx s)"
    by (simp add: s channel_def bit_bytes_def)
  have 4: "live (timer s)"
    unfolding s by (rule live_bench)
  have 5: "16 = 2 * max (Max (set (take (Suc 0) (amplitudes (ssc_rx s))))) 8"
    by (simp add: s amplitude_def)
  have 6: "0x0D = rx_value bench_collab \<lparr>seed = 1, pos = 2\<rparr> 16 (drop (2 * Suc 0) (ssc_rx s)) 6"
    by (simp add: s rx_value_def decision_def amplitude_def upt_rec bench_collab_def
        channel_def bit_bytes_def)
  have iv: "cipher_bits bench_collab \<lparr>seed = 0, pos = 0\<rparr> (ucast (1 :: 8 word)) 7 =
      [True, False, False, False, False, False, False]"
    by (simp add: cipher_bits_def bench_collab_def upt_rec)
  have ack: "cipher_bits bench_collab \<lparr>seed = 1, pos = 8\<rparr> 0x19 6 =
      [True, False, False, True, True, False]"
    by (simp add: cipher_bits_def bench_collab_def upt_rec)
  from setup_phase_reader_run [OF 1 2 3 4 5 6 refl] obtain n m where
    "setup_phase_reader bench_collab 1 s =
     Some (0x0D, s\<lparr>reads := n, ssc_rx := drop (2 * Suc 0 + 60) (ssc_rx s),
                 input_threshold := 16, dbg := dbg s @ m,
                 wire := wire s @ [Stamp, Until 5000] @
                         frame_wave [True, False, False, False, False, False, False] @
                         [Stamp, Until TAG_FRAME_WAIT, Conf HF_READER_RX_XCORR_848_KHZ_QUARTER] @
                         frame_wave [True, False, False, True, True, False],
                 lfsr := \<lparr>seed = 1, pos = 14\<rparr>\<rparr>)"
    unfolding iv ack by auto
  then have "setup_phase_reader bench_collab 1 s =
     Some (0x0D, (bench rest 16)\<lparr>reads := n, dbg := m,
        wire := [Sys ''FpgaDownloadAndGo'', Conf HF_READER_RX_XCORR_848_KHZ_QUARTER,
                 Sys ''SetAdcMuxFor'', Sys ''FpgaSetupSsc'', Pin True, Sys ''clear_trace'',
                 Sys ''set_tracing'', Sys ''crc_init'', Sys ''StartCountUS'',
                 Stamp, Until 5000] @
                frame_wave [True, False, False, False, False, False, False] @
                [Stamp, Until 330, Conf HF_READER_RX_XCORR_848_KHZ_QUARTER] @
                frame_wave [True, False, False, True, True, False],
        lfsr := \<lparr>seed = 1, pos = 14\<rparr>\<rparr>)"
    unfolding s_def init_reader_bench
    by (simp add: bench_def card_0d_bytes_def channel_def bit_bytes_def TAG_FRAME_WAIT_def)
  then show ?thesis
    unfolding s_def by blast
qed

lemma length_bit_bytes: "length (bit_bytes b) = 10"
  by (simp add: bit_bytes_def)

lemma length_channel: "length (channel bits) = 10 * length bits"
  by (induction bits) (simp_all add: channel_def length_bit_bytes)

lemma decision_bit_bytes:
  "0 \<le> t \<Longrightarrow> t < 127 \<Longrightarrow> decision t (bit_bytes b @ rest) = b"
  by (simp add: decision_def bit_bytes_def amplitude_def nth_append)

lemma decision_channel:
  assumes "0 \<le> t" and "t < 127" and "j < length bits"
  shows "decision t (drop (10 * j) (channel bits @ rest)) = bits ! j"
  using assms(3)
proof (induction bits arbitrary: j)
  case Nil
  then show ?case by simp
next
  case (Cons b bits)
  have ch: "channel (b # bits) @ rest = bit_bytes b @ (channel bits @ rest)"
    by (simp add: channel_def)
  show ?case
  proof (cases j)
    case 0
    then show ?thesis
      unfolding ch by (simp add: decision_bit_bytes [OF assms(1,2)])
  next
    case (Suc j')
    then have "drop (10 * j) (channel (b # bits) @ rest) = drop (10 * j') (channel bits @ rest)"
      unfolding ch by (simp add: length_bit_bytes)
    with Cons.IH [of j'] Cons.prems Suc show ?thesis
      by simp
  qed
qed

lemma rx_value_channel:
  assumes "0 \<le> t" and "t < 127" and "n \<le> length bits"
  shows "rx_value c g t (channel bits @ rest) n =
         horner_sum of_bool 2
           (map (\<lambda>j. bits ! j \<noteq> keystream c (seed g) (pos g + j)) [0..<n])"
proof -
  have "map (\<lambda>j. decision t (drop (10 * j) (channel bits @ rest)) \<noteq>
               keystream c (seed g) (pos g + j)) [0..<n] =
        map (\<lambda>j. bits ! j \<noteq> keystream c (seed g) (pos g + j)) [0..<n]"
  proof (intro map_cong refl)
    fix j
    assume "j \<in> set [0..<n]"
    then have j: "j < length bits"
      using assms(3) by simp
    show "(decision t (drop (10 * j) (channel bits @ rest)) \<noteq>
             keystream c (seed g) (pos g + j)) =
          (bits ! j \<noteq> keystream c (seed g) (pos g + j))"
      unfolding decision_channel [OF assms(1,2) j] ..
  qed
  then show ?thesis
    unfolding rx_value_def by (rule arg_cong)
qed

lemma rx_value_bench:
  assumes "0 \<le> t" and "t < 127"
  shows "rx_value bench_collab g t (channel bits @ rest) (length bits) =
         horner_sum of_bool 2 bits"
proof -
  have "map (\<lambda>j. bits ! j \<noteq> keystream bench_collab (seed g) (pos g + j)) [0..<length bits] = bits"
    by (simp add: bench_collab_def map_nth)
  then show ?thesis
    using rx_value_channel [OF assms order_refl, where bits = bits and c = bench_collab
        and g = g and rest = rest] by simp
qed

lemma drop_channel: "n = 10 * length bits \<Longrightarrow> drop n (channel bits @ rest) = rest"
  by (simp add: length_channel)

lemma response_bench:
  assumes "ssc_rx s = pre @ channel bits @ rest" and "length pre = 120 * k"
    and "length bits = 12" and "input_threshold s = 16"
  shows "response bench_collab s k = horner_sum of_bool 2 bits"
proof -
  have "drop (120 * k) (ssc_rx s) = channel bits @ rest"
    by (simp add: assms(1,2))
  then show ?thesis
    using rx_value_bench [where t = 16 and bits = bits and rest = rest]
    by (simp add: response_def Let_def assms(3,4))
qed

text \<open>
  The clamp of \<^verbatim>\<open>LegicRfReader\<close> by itself: for an offset within the card, the length it
  leaves ends within the card. (Beyond the card the subtraction wraps around.)
\<close>

lemma clamp_within_card:
  fixes offset len cs :: "16 word"
  assumes "unat offset \<le> unat cs"
  shows "unat (if unat len + unat offset > unat cs then cs - offset else len) + unat offset
           \<le> unat cs"
proof (cases "unat len + unat offset > unat cs")
  case True
  have "offset \<le> cs"
    using assms by (simp add: word_le_nat_alt)
  then have "unat (cs - offset) = unat cs - unat offset"
    by (rule unat_sub)
  with True assms show ?thesis by simp
next
  case False
  then show ?thesis by simp
qed

subsection \<open>Concrete runs\<close>

theorem rx_bit_decision_witness:
  "rx_bit (bench [0, 0, 0, 0, 127, 0, 127, 0, 0, 0] 16) = Some (True, bench [] 16) \<and>
   rx_bit (bench [0, 0, 0, 0, 3, 0, 3, 0, 0, 0] 16) = Some (False, bench [] 16) \<and>
   rx_bit (bench [0, 0, 0, 0, 100, 0, 3, 0, 0, 0] 16) =
     Some (False, (bench [] 16)\<lparr>dbg := [(''rx_bit failed %i vs %i (threshold %i)'', [100, 3, 16])]\<rparr>)"
proof -
  have a: "amplitude 127 0 = 127" "amplitude 3 0 = 3" "amplitude 100 0 = 100"
    by (simp_all add: amplitude_def)
  have t: "input_threshold (bench bs 16) = 16" for bs
    by (simp add: bench_def)
  have 1: "ssc_rx (bench [0, 0, 0, 0, 127, 0, 127, 0, 0, 0] 16) = [0, 0, 0, 0, 127, 0, 127, 0, 0, 0]"
   and 2: "ssc_rx (bench [0, 0, 0, 0, 3, 0, 3, 0, 0, 0] 16) = [0, 0, 0, 0, 3, 0, 3, 0, 0, 0]"
   and 3: "ssc_rx (bench [0, 0, 0, 0, 100, 0, 3, 0, 0, 0] 16) = [0, 0, 0, 0, 100, 0, 3, 0, 0, 0]"
    by (simp_all add: bench_def)
  show ?thesis
    using rx_bit_decision [OF 1 a(1) [symmetric] a(1) [symmetric] t [symmetric]]
      rx_bit_decision [OF 2 a(2) [symmetric] a(2) [symmetric] t [symmetric]]
      rx_bit_decision [OF 3 a(3) [symmetric] a(2) [symmetric] t [symmetric]]
    by (simp add: bench_def)
qed

theorem rx_bit_sample_equal_threshold_witness:
  "amplitude 16 0 = input_threshold (bench [0, 0, 0, 0, 16, 0, 127, 0, 0, 0] 16) \<and>
   rx_bit (bench [0, 0, 0, 0, 16, 0, 127, 0, 0, 0] 16) =
     Some (False, (bench [] 16)\<lparr>dbg := [(''rx_bit failed %i vs %i (threshold %i)'', [16, 127, 16])]\<rparr>)"
proof -
  have a: "amplitude 16 0 = 16" "amplitude 127 0 = 127"
    by (simp_all add: amplitude_def)
  have t: "input_threshold (bench [0, 0, 0, 0, 16, 0, 127, 0, 0, 0] 16) = 16"
    by (simp add: bench_def)
  have 1: "ssc_rx (bench [0, 0, 0, 0, 16, 0, 127, 0, 0, 0] 16) = [0, 0, 0, 0, 16, 0, 127, 0, 0, 0]"
    by (simp add: bench_def)
  have 2: "amplitude 16 0 = input_threshold (bench [0, 0, 0, 0, 16, 0, 127, 0, 0, 0] 16) \<or>
           amplitude 127 0 = input_threshold (bench [0, 0, 0, 0, 16, 0, 127, 0, 0, 0] 16)"
    by (simp add: a t)
  show ?thesis
    using rx_bit_sample_equal_threshold [OF 1 2] by (simp add: a bench_def)
qed

theorem init_card_table_witness:
  "(0xff :: 8 word) \<noteq> 0x0d \<and> (0xff :: 8 word) \<noteq> 0x1d \<and> (0xff :: 8 word) \<noteq> 0x3d \<and>
   fst (init_card 0xff idle_card) = 2"
  using init_card_table [of idle_card "0xff"] by simp

theorem init_card_unknown_witness:
  "(0x3f :: 8 word) \<noteq> 0x0d \<and> (0x3f :: 8 word) \<noteq> 0x1d \<and> (0x3f :: 8 word) \<noteq> 0x3d \<and>
   init_card 0x3f \<lparr>tagtype = 0x0d, cmdsize = 6, addrsize = 5, cardsize = 22, uid = [1, 2, 3, 4]\<rparr>
     = (2, \<lparr>tagtype = 0x3f, cmdsize = 0, addrsize = 0, cardsize = 0, uid = [1, 2, 3, 4]\<rparr>)"
  using init_card_unknown [of "0x3f"
      "\<lparr>tagtype = 0x0d, cmdsize = 6, addrsize = 5, cardsize = 22, uid = [1, 2, 3, 4]\<rparr>"]
  by simp

text \<open>
  C6 as the specification words it fails: after the failed lookup of the code 0x3f the
  record is not all zero, since the tag type is 0x3f and the UID of the card selected
  before is still there.
\<close>

theorem init_card_unknown_counterexample:
  "fst (init_card 0x3f
     \<lparr>tagtype = 0x0d, cmdsize = 6, addrsize = 5, cardsize = 22, uid = [1, 2, 3, 4]\<rparr>) = 2 \<and>
   tagtype (snd (init_card 0x3f
     \<lparr>tagtype = 0x0d, cmdsize = 6, addrsize = 5, cardsize = 22, uid = [1, 2, 3, 4]\<rparr>)) \<noteq> 0 \<and>
   uid (snd (init_card 0x3f
     \<lparr>tagtype = 0x0d, cmdsize = 6, addrsize = 5, cardsize = 22, uid = [1, 2, 3, 4]\<rparr>)) \<noteq> [0, 0, 0, 0]"
  by (simp add: init_card_def)

theorem calibrate_threshold_value_witness:
  "timer ((bench [3, 0, 100, 0, 50, 0, 9, 9] 0)\<lparr>timer := \<lambda>n. of_nat n * 2000\<rparr>) 2
     < timer ((bench [3, 0, 100, 0, 50, 0, 9, 9] 0)\<lparr>timer := \<lambda>n. of_nat n * 2000\<rparr>) 0 + 5000 \<and>
   \<not> timer ((bench [3, 0, 100, 0, 50, 0, 9, 9] 0)\<lparr>timer := \<lambda>n. of_nat n * 2000\<rparr>) 3
     < timer ((bench [3, 0, 100, 0, 50, 0, 9, 9] 0)\<lparr>timer := \<lambda>n. of_nat n * 2000\<rparr>) 0 + 5000 \<and>
   8 \<le> Max (set [3, 100, 50 :: int]) \<and>
   calibrate_threshold ((bench [3, 0, 100, 0, 50, 0, 9, 9] 0)\<lparr>timer := \<lambda>n. of_nat n * 2000\<rparr>) =
     Some ((bench [9, 9] 200)\<lparr>timer := \<lambda>n. of_nat n * 2000, reads := 4,
             wire := [Stamp, Until 5000]\<rparr>) \<and>
   map_option input_threshold
     (calibrate_threshold ((bench [3, 0, 100, 0, 50, 0, 9, 9] 0)\<lparr>timer := \<lambda>n. of_nat n * 2000\<rparr>))
     = Some 200"
proof -
  define s where "s = (bench [3, 0, 100, 0, 50, 0, 9, 9] 0)\<lparr>timer := \<lambda>n. of_nat n * 2000\<rparr>"
  have 1: "\<forall>j<2. timer s (Suc (reads s) + j) < timer s (reads s) + 5000"
    by (auto simp: s_def bench_def less_2_cases_iff)
  have 2: "\<not> timer s (Suc (reads s) + 2) < timer s (reads s) + 5000"
    by (simp add: s_def bench_def)
  have 3: "2 * Suc 2 \<le> length (ssc_rx s)"
    by (simp add: s_def bench_def)
  have 4: "[3, 100, 50] = take (Suc 2) (amplitudes (ssc_rx s))"
    by (simp add: s_def bench_def amplitude_def)
  have 5: "8 \<le> Max (set [3, 100, 50 :: int])"
    by simp
  show ?thesis
    using 5 calibrate_threshold_value [OF 1 2 3 4]
    unfolding s_def by (simp add: bench_def)
qed

theorem read_byte_crc_check_witness:
  "live (timer (bench (replicate 120 0) 16)) \<and>
   120 \<le> length (ssc_rx (bench (replicate 120 0) 16)) \<and>
   (\<exists>s'. read_byte bench_collab 3 6 (bench (replicate 120 0) 16) = Some (- 1, s'))"
proof -
  define s where "s = bench (replicate 120 0) 16"
  have 1: "live (timer s)"
    unfolding s_def by (rule live_bench)
  have 2: "120 \<le> length (ssc_rx s)"
    by (simp add: s_def bench_def)
  have fr: "rx_value bench_collab ((lfsr s)\<lparr>pos := pos (lfsr s) + unat (6 :: 8 word)\<rparr>)
              (input_threshold s) (ssc_rx s) 12 = 0"
    using rx_value_silence [of 16 12 120] by (simp add: s_def bench_def)
  have 7: "(7 :: 8 word) =
      crc4 bench_collab (push_bit (unat (6 :: 8 word)) (ucast (0 :: 8 word)) OR
        ucast (push_bit 1 (3 :: 16 word) OR LEGIC_READ)) (8 + unat (6 :: 8 word))"
    by (simp add: bench_collab_def LEGIC_READ_def)
  have 5: "(0 :: 8 word) = ucast (0 :: 32 word)" and 6: "(0 :: 8 word) = ucast (drop_bit 8 (0 :: 32 word))"
    by simp_all
  show ?thesis
    using 1 2 read_byte_crc_check [OF 1 2 refl fr [symmetric] 5 6 7]
    unfolding s_def by auto
qed

theorem frame_round_trip_witness:
  "unat (3 :: 8 word) \<le> 32 \<and> unat (5 :: 32 word) < 2 ^ unat (3 :: 8 word) \<and>
   live (timer (bench [] 16)) \<and>
   clean_channel 16 [True, True, True]
     [0, 0, 0, 0, 127, 0, 127, 0, 0, 0,  0, 0, 0, 0, 127, 0, 127, 0, 0, 0,
      0, 0, 0, 0, 127, 0, 127, 0, 0, 0] \<and>
   (\<exists>n. tx_frame (bench_collab\<lparr>keystream := \<lambda>sd p. odd p\<rparr>) 5 3 (bench [] 16) =
      Some ((bench [] 16)\<lparr>reads := n, wire := frame_wave [True, True, True],
              lfsr := \<lparr>seed = 0, pos = 3\<rparr>\<rparr>)) \<and>
   (\<exists>r'. rx_frame (bench_collab\<lparr>keystream := \<lambda>sd p. odd p\<rparr>) 3
      (bench [0, 0, 0, 0, 127, 0, 127, 0, 0, 0,  0, 0, 0, 0, 127, 0, 127, 0, 0, 0,
              0, 0, 0, 0, 127, 0, 127, 0, 0, 0] 16) = Some (5, r'))"
proof -
  define c where "c = bench_collab\<lparr>keystream := \<lambda>sd p. odd p\<rparr>"
  define bs :: "8 word list" where
    "bs = [0, 0, 0, 0, 127, 0, 127, 0, 0, 0,  0, 0, 0, 0, 127, 0, 127, 0, 0, 0,
           0, 0, 0, 0, 127, 0, 127, 0, 0, 0]"
  have 1: "unat (3 :: 8 word) \<le> 32" and 2: "unat (5 :: 32 word) < 2 ^ unat (3 :: 8 word)"
    by simp_all
  have 3: "live (timer (bench [] 16))"
    by (rule live_bench)
  have 4: "lfsr (bench bs 16) = lfsr (bench [] 16)"
    by (simp add: bench_def)
  have cb: "cipher_bits c (lfsr (bench [] 16)) 5 (unat (3 :: 8 word)) = [True, True, True]"
    by (simp add: cipher_bits_def c_def bench_def upt_rec)
  have cl: "clean_channel 16 [True, True, True] bs"
    by (simp add: bs_def amplitude_def)
  have sel: "input_threshold (bench bs 16) = 16" "ssc_rx (bench bs 16) = bs"
    by (simp_all add: bench_def)
  have 5: "clean_channel (input_threshold (bench bs 16))
             (cipher_bits c (lfsr (bench [] 16)) 5 (unat (3 :: 8 word))) (ssc_rx (bench bs 16))"
    unfolding cb sel by (rule cl)
  show ?thesis
    using 1 2 3 cl frame_round_trip [OF 1 2 3 4 5]
    unfolding cb by (auto simp: bench_def c_def bs_def)
qed

theorem handshake_sequence_witness:
  "live (timer (bench
      [0, 0, 0, 0, 127, 0, 127, 0, 0, 0,  0, 0, 0, 0, 0, 0, 0, 0, 0, 0,
       0, 0, 0, 0, 127, 0, 127, 0, 0, 0,  0, 0, 0, 0, 127, 0, 127, 0, 0, 0,
       0, 0, 0, 0, 0, 0, 0, 0, 0, 0,  0, 0, 0, 0, 0, 0, 0, 0, 0, 0] 16)) \<and>
   (1 :: 8 word) < 128 \<and>
   (\<exists>n2 w m n.
     waited (timer (bench
      [0, 0, 0, 0, 127, 0, 127, 0, 0, 0,  0, 0, 0, 0, 0, 0, 0, 0, 0, 0,
       0, 0, 0, 0, 127, 0, 127, 0, 0, 0,  0, 0, 0, 0, 127, 0, 127, 0, 0, 0,
       0, 0, 0, 0, 0, 0, 0, 0, 0, 0,  0, 0, 0, 0, 0, 0, 0, 0, 0, 0] 16)) n2 330 w \<and>
     Suc w \<le> n \<and>
     handshake bench_collab 1 (bench
      [0, 0, 0, 0, 127, 0, 127, 0, 0, 0,  0, 0, 0, 0, 0, 0, 0, 0, 0, 0,
       0, 0, 0, 0, 127, 0, 127, 0, 0, 0,  0, 0, 0, 0, 127, 0, 127, 0, 0, 0,
       0, 0, 0, 0, 0, 0, 0, 0, 0, 0,  0, 0, 0, 0, 0, 0, 0, 0, 0, 0] 16) =
     Some (0x0D, (bench [] 16)\<lparr>reads := n, dbg := m,
        wire := frame_wave [True, False, False, False, False, False, False] @
                [Stamp, Until 330, Conf HF_READER_RX_XCORR_848_KHZ_QUARTER] @
                frame_wave [True, False, False, True, True, False],
        lfsr := \<lparr>seed = 1, pos = 14\<rparr>\<rparr>))"
proof -
  define bs :: "8 word list" where "bs =
      [0, 0, 0, 0, 127, 0, 127, 0, 0, 0,  0, 0, 0, 0, 0, 0, 0, 0, 0, 0,
       0, 0, 0, 0, 127, 0, 127, 0, 0, 0,  0, 0, 0, 0, 127, 0, 127, 0, 0, 0,
       0, 0, 0, 0, 0, 0, 0, 0, 0, 0,  0, 0, 0, 0, 0, 0, 0, 0, 0, 0]"
  have 1: "live (timer (bench bs 16))"
    by (rule live_bench)
  have 2: "60 \<le> length (ssc_rx (bench bs 16))"
    by (simp add: bench_def bs_def)
  have 3: "0x0D = rx_value bench_collab \<lparr>seed = 1, pos = 2\<rparr> (input_threshold (bench bs 16))
                    (ssc_rx (bench bs 16)) 6"
    by (simp add: rx_value_def decision_def amplitude_def upt_rec bench_collab_def bench_def bs_def)
  have 4: "(1 :: 8 word) < 128"
    by simp
  have iv: "cipher_bits bench_collab \<lparr>seed = 0, pos = 0\<rparr> (ucast (1 :: 8 word)) 7 =
      [True, False, False, False, False, False, False]"
    by (simp add: cipher_bits_def bench_collab_def upt_rec)
  have ack: "cipher_bits bench_collab \<lparr>seed = 1, pos = 8\<rparr> 0x19 6 =
      [True, False, False, True, True, False]"
    by (simp add: cipher_bits_def bench_collab_def upt_rec)
  from handshake_sequence [OF 1 2 4 3] obtain n2 w m n where
    a: "waited (timer (bench bs 16)) n2 330 w" and b: "Suc w \<le> n" and
    c: "handshake bench_collab 1 (bench bs 16) =
       Some (0x0D, (bench bs 16)\<lparr>reads := n, ssc_rx := drop 60 (ssc_rx (bench bs 16)),
                 dbg := dbg (bench bs 16) @ m,
                 wire := wire (bench bs 16) @
                         frame_wave (cipher_bits bench_collab \<lparr>seed = 0, pos = 0\<rparr> (ucast (1 :: 8 word)) 7) @
                         [Stamp, Until 330, Conf HF_READER_RX_XCORR_848_KHZ_QUARTER] @
                         (if (0x0D :: 32 word) = 0x0D
                          then frame_wave (cipher_bits bench_collab \<lparr>seed = 1, pos = 8\<rparr> 0x19 6)
                          else if (0x0D :: 32 word) = 0x1D \<or> (0x0D :: 32 word) = 0x3D
                            then frame_wave (cipher_bits bench_collab \<lparr>seed = 1, pos = 8\<rparr> 0x39 6)
                          else []),
                 lfsr := \<lparr>seed = 1,
                          pos = (if (0x0D :: 32 word) = 0x0D \<or> (0x0D :: 32 word) = 0x1D \<or>
                                    (0x0D :: 32 word) = 0x3D then 14 else 8)\<rparr>\<rparr>)"
    by blast
  have "handshake bench_collab 1 (bench bs 16) =
     Some (0x0D, (bench [] 16)\<lparr>reads := n, dbg := m,
        wire := frame_wave [True, False, False, False, False, False, False] @
                [Stamp, Until 330, Conf HF_READER_RX_XCORR_848_KHZ_QUARTER] @
                frame_wave [True, False, False, True, True, False],
        lfsr := \<lparr>seed = 1, pos = 14\<rparr>\<rparr>)"
    unfolding c iv ack by (simp add: bench_def bs_def)
  with a b have "\<exists>n2 w m n.
     waited (timer (bench bs 16)) n2 330 w \<and> Suc w \<le> n \<and>
     handshake bench_collab 1 (bench bs 16) =
     Some (0x0D, (bench [] 16)\<lparr>reads := n, dbg := m,
        wire := frame_wave [True, False, False, False, False, False, False] @
                [Stamp, Until 330, Conf HF_READER_RX_XCORR_848_KHZ_QUARTER] @
                frame_wave [True, False, False, True, True, False],
        lfsr := \<lparr>seed = 1, pos = 14\<rparr>\<rparr>)"
    by blast
  with 1 4 show ?thesis
    unfolding bs_def by blast
qed

theorem bulk_read_crc_failure_witness:
  "live (timer (bench (card_0d_bytes @ answers_from_0) 0)) \<and>
   (\<exists>s'. LegicRfReader bench_collab 0 5 1 (bench (card_0d_bytes @ answers_from_0) 0) = Some s' \<and>
      host s' = [\<lparr>arg0 = 0, arg1 = 0, arg2 = 0, payload = []\<rparr>] \<and>
      ssc_rx s' = [] \<and> legic_mem s' 0 = 0x81 \<and> legic_mem s' 1 = 0)"
proof -
  define W where "W = [Sys ''FpgaDownloadAndGo'', Conf HF_READER_RX_XCORR_848_KHZ_QUARTER,
                 Sys ''SetAdcMuxFor'', Sys ''FpgaSetupSsc'', Pin True, Sys ''clear_trace'',
                 Sys ''set_tracing'', Sys ''crc_init'', Sys ''StartCountUS'',
                 Stamp, Until 5000] @
                frame_wave [True, False, False, False, False, False, False] @
                [Stamp, Until 330, Conf HF_READER_RX_XCORR_848_KHZ_QUARTER] @
                frame_wave [True, False, False, True, True, False]"
  from bench_setup [of answers_from_0] obtain n m where
    st: "setup_phase_reader bench_collab 1
        (init_reader False (bench (card_0d_bytes @ answers_from_0) 0)) =
      Some (0x0D, (bench answers_from_0 16)\<lparr>reads := n, dbg := m, wire := W,
                     lfsr := \<lparr>seed = 1, pos = 14\<rparr>\<rparr>)"
    unfolding W_def by blast
  define s1 where "s1 = (bench answers_from_0 16)\<lparr>reads := n, dbg := m, wire := W,
                     lfsr := \<lparr>seed = 1, pos = 14\<rparr>\<rparr>"
  define cd where "cd = \<lparr>tagtype = 0x0D, cmdsize = 6, addrsize = 5, cardsize = 22,
                          uid = [0, 0, 0, 0]\<rparr>"
  define s2 where "s2 = s1\<lparr>card := cd\<rparr>"
  have s2: "input_threshold s2 = 16" "cmdsize (card s2) = 6"
    "ssc_rx s2 = answers_from_0"
    by (simp_all add: s2_def s1_def bench_def cd_def)
  have len1: "length (ssc_rx s1) = 360"
    by (simp add: s1_def bench_def answers_from_0_def length_channel)
  have 1: "setup_phase_reader bench_collab 1
        (init_reader False (bench (card_0d_bytes @ answers_from_0) 0)) = Some (0x0D, s1)"
    using st by (simp add: s1_def)
  have 2: "init_card (ucast (0x0D :: 32 word)) (card s1) = (0, cd)"
    by (simp add: init_card_def s1_def bench_def idle_card_def cd_def)
  have 3: "5 = unat (if unat (5 :: 16 word) + unat (0 :: 16 word) > unat (cardsize cd)
                      then cardsize cd - 0 else 5)"
    by (simp add: cd_def)
  have 4: "live (timer (bench (card_0d_bytes @ answers_from_0) 0))"
    by (rule live_bench)
  have 5: "(2 :: nat) < 5" by simp
  have 6: "120 * Suc 2 \<le> length (ssc_rx s1)"
    by (simp add: len1)
  have r0: "response bench_collab s2 0 = 0x181"
    using response_bench [of s2 "[]"
        "[True, False, False, False, False, False, False, True,  True, False, False, False]" _ 0]
    by (simp add: s2 answers_from_0_def)
  have r1: "response bench_collab s2 (Suc 0) = 0x300"
    using response_bench [of s2
        "channel [True, False, False, False, False, False, False, True,  True, False, False, False]"
        "[False, False, False, False, False, False, False, False,  True, True, False, False]" _
        "Suc 0"]
    by (simp add: s2 answers_from_0_def length_channel)
  have r2: "response bench_collab s2 2 = 0"
    using response_bench [of s2
        "channel [True, False, False, False, False, False, False, True,  True, False, False, False] @
         channel [False, False, False, False, False, False, False, False,  True, True, False, False]"
        "[False, False, False, False, False, False, False, False,  False, False, False, False]"
        "[]" 2]
    by (simp add: s2 answers_from_0_def length_channel)
  have c0: "crc_ok bench_collab 0 s2 0"
    unfolding crc_ok_def r0 by (simp add: s2 calc_crc4_def bench_collab_def LEGIC_READ_def)
  have c1: "crc_ok bench_collab 0 s2 (Suc 0)"
    unfolding crc_ok_def r1 by (simp add: s2 calc_crc4_def bench_collab_def LEGIC_READ_def)
  have 7: "\<forall>k<2. crc_ok bench_collab 0 s2 k"
    using c0 c1 by (simp add: less_2_cases_iff)
  have 8: "\<not> crc_ok bench_collab 0 s2 2"
    unfolding crc_ok_def r2 by (simp add: s2 calc_crc4_def bench_collab_def LEGIC_READ_def)
  from bulk_read_crc_failure [OF 1 2 3 4 5 6 7 [unfolded s2_def] 8 [unfolded s2_def]]
  obtain s' where res: "LegicRfReader bench_collab 0 5 1
      (bench (card_0d_bytes @ answers_from_0) 0) = Some s'"
    "host s' = host (bench (card_0d_bytes @ answers_from_0) 0) @
        [\<lparr>arg0 = 0, arg1 = 0, arg2 = 0, payload = []\<rparr>]"
    "ssc_rx s' = drop (120 * Suc 2) (ssc_rx s1)"
    "\<forall>k<2. legic_mem s' k = ucast (response bench_collab s2 k)"
    unfolding s2_def by blast
  have "host s' = [\<lparr>arg0 = 0, arg1 = 0, arg2 = 0, payload = []\<rparr>]"
    using res(2) by (simp add: bench_def)
  moreover have "ssc_rx s' = []"
    using res(3) by (simp add: len1)
  moreover have "legic_mem s' 0 = 0x81" "legic_mem s' 1 = 0"
    using res(4) by (simp_all add: r0 r1)
  ultimately show ?thesis
    using 4 res(1) by blast
qed

text \<open>
  C1 fails on the code where the offset is beyond the card. On the bench a card of type
  0x0d (22 bytes) answers, and the host asks for 1 byte at offset 25. The sum 26 exceeds
  22, so \<^verbatim>\<open>len = card.cardsize - offset\<close> is taken, which in \<^verbatim>\<open>uint16_t\<close> is 65533. The
  reader then sends the read command for address 25 and, the answer being good, the one
  for address 26 (whose answer fails the CRC here, which ends the run): two reads beyond
  the 22 bytes of the card, for a request of one byte.
\<close>

theorem bulk_read_offset_beyond_card:
  "\<exists>s'. LegicRfReader bench_collab 25 1 1 (bench (card_0d_bytes @ answers_from_25) 0) = Some s' \<and>
      cardsize (card s') = 22 \<and>
      host s' = [\<lparr>arg0 = 0, arg1 = 0, arg2 = 0, payload = []\<rparr>] \<and>
      wire s' =
        [Sys ''FpgaDownloadAndGo'', Conf HF_READER_RX_XCORR_848_KHZ_QUARTER,
         Sys ''SetAdcMuxFor'', Sys ''FpgaSetupSsc'', Pin True, Sys ''clear_trace'',
         Sys ''set_tracing'', Sys ''crc_init'', Sys ''StartCountUS'',
         Stamp, Until 5000] @
        frame_wave [True, False, False, False, False, False, False] @
        [Stamp, Until 330, Conf HF_READER_RX_XCORR_848_KHZ_QUARTER] @
        frame_wave [True, False, False, True, True, False] @
        frame_wave (cipher_bits bench_collab \<lparr>seed = 1, pos = 14\<rparr>
                      (ucast (push_bit 1 (25 :: 16 word) OR LEGIC_READ)) 6) @
        [Conf HF_READER_RX_XCORR_848_KHZ_QUARTER] @
        frame_wave (cipher_bits bench_collab \<lparr>seed = 1, pos = 32\<rparr>
                      (ucast (push_bit 1 (26 :: 16 word) OR LEGIC_READ)) 6) @
        [Conf HF_READER_RX_XCORR_848_KHZ_QUARTER, Sys ''switch_off'']"
proof -
  define W where "W = [Sys ''FpgaDownloadAndGo'', Conf HF_READER_RX_XCORR_848_KHZ_QUARTER,
                 Sys ''SetAdcMuxFor'', Sys ''FpgaSetupSsc'', Pin True, Sys ''clear_trace'',
                 Sys ''set_tracing'', Sys ''crc_init'', Sys ''StartCountUS'',
                 Stamp, Until 5000] @
                frame_wave [True, False, False, False, False, False, False] @
                [Stamp, Until 330, Conf HF_READER_RX_XCORR_848_KHZ_QUARTER] @
                frame_wave [True, False, False, True, True, False]"
  from bench_setup [of answers_from_25] obtain n m where
    st: "setup_phase_reader bench_collab 1
        (init_reader False (bench (card_0d_bytes @ answers_from_25) 0)) =
      Some (0x0D, (bench answers_from_25 16)\<lparr>reads := n, dbg := m, wire := W,
                     lfsr := \<lparr>seed = 1, pos = 14\<rparr>\<rparr>)"
    unfolding W_def by blast
  define s1 where "s1 = (bench answers_from_25 16)\<lparr>reads := n, dbg := m, wire := W,
                     lfsr := \<lparr>seed = 1, pos = 14\<rparr>\<rparr>"
  define cd where "cd = \<lparr>tagtype = 0x0D, cmdsize = 6, addrsize = 5, cardsize = 22,
                          uid = [0, 0, 0, 0]\<rparr>"
  define s2 where "s2 = s1\<lparr>card := cd\<rparr>"
  have s2: "input_threshold s2 = 16" "cmdsize (card s2) = 6"
    "ssc_rx s2 = answers_from_25" "lfsr s2 = \<lparr>seed = 1, pos = 14\<rparr>"
    by (simp_all add: s2_def s1_def bench_def cd_def)
  have s1: "length (ssc_rx s1) = 240" "wire s1 = W" "host s1 = []"
    "timer s1 = timer (bench answers_from_25 16)"
    by (simp_all add: s1_def bench_def answers_from_25_def length_channel)
  have 1: "setup_phase_reader bench_collab 1
        (init_reader False (bench (card_0d_bytes @ answers_from_25) 0)) = Some (0x0D, s1)"
    using st by (simp add: s1_def)
  have 2: "init_card (ucast (0x0D :: 32 word)) (card s1) = (0, cd)"
    by (simp add: init_card_def s1_def bench_def idle_card_def cd_def)
  have 3: "65533 = unat (if unat (1 :: 16 word) + unat (25 :: 16 word) > unat (cardsize cd)
                      then cardsize cd - 25 else 1)"
    by (simp add: cd_def)
  have 4: "live (timer s1)"
    unfolding s1 by (rule live_bench)
  have 5: "(1 :: nat) < 65533" by simp
  have 6: "120 * Suc 1 \<le> length (ssc_rx s1)"
    by (simp add: s1)
  have r0: "response bench_collab s2 0 = 0x300"
    using response_bench [of s2 "[]"
        "[False, False, False, False, False, False, False, False,  True, True, False, False]" _ 0]
    by (simp add: s2 answers_from_25_def)
  have r1: "response bench_collab s2 (Suc 0) = 0"
    using response_bench [of s2
        "channel [False, False, False, False, False, False, False, False,  True, True, False, False]"
        "[False, False, False, False, False, False, False, False,  False, False, False, False]"
        "[]" "Suc 0"]
    by (simp add: s2 answers_from_25_def length_channel)
  have c0: "crc_ok bench_collab 25 s2 0"
    unfolding crc_ok_def r0 by (simp add: s2 calc_crc4_def bench_collab_def LEGIC_READ_def)
  have 7: "\<forall>k<1. crc_ok bench_collab 25 s2 k"
    using c0 by simp
  have 8: "\<not> crc_ok bench_collab 25 s2 1"
    unfolding crc_ok_def One_nat_def r1
    by (simp add: s2 calc_crc4_def bench_collab_def LEGIC_READ_def)
  from LegicRfReader_abort [OF 1 2 3 4 5 6 7 [unfolded s2_def] 8 [unfolded s2_def]]
  obtain r m' where res: "LegicRfReader bench_collab 25 1 1
      (bench (card_0d_bytes @ answers_from_25) 0) =
     Some (s1\<lparr>card := cd, reads := r, ssc_rx := drop (120 * Suc 1) (ssc_rx s1),
              dbg := dbg s1 @ m',
              wire := wire s1 @ concat (map (read_wave bench_collab 25 s2) [0..<Suc 1]) @
                      [Sys ''switch_off''],
              lfsr := (lfsr s1)\<lparr>pos := pos (lfsr s1) + Suc 1 * (unat (cmdsize cd) + 12)\<rparr>,
              legic_mem := (\<lambda>a. if a < 1 then ucast (response bench_collab s2 a)
                                 else legic_mem s1 a),
              host := host s1 @ [failure_ack]\<rparr>)"
    unfolding s2_def by blast
  have w0: "read_wave bench_collab 25 s2 0 =
      frame_wave (cipher_bits bench_collab \<lparr>seed = 1, pos = 14\<rparr>
                      (ucast (push_bit 1 (25 :: 16 word) OR LEGIC_READ)) 6) @
        [Conf HF_READER_RX_XCORR_848_KHZ_QUARTER]"
    by (simp add: read_wave_def s2)
  have w1: "read_wave bench_collab 25 s2 (Suc 0) =
      frame_wave (cipher_bits bench_collab \<lparr>seed = 1, pos = 32\<rparr>
                      (ucast (push_bit 1 (26 :: 16 word) OR LEGIC_READ)) 6) @
        [Conf HF_READER_RX_XCORR_848_KHZ_QUARTER]"
    by (simp add: read_wave_def s2)
  show ?thesis
    unfolding res
    by (simp add: s1 w0 w1 failure_ack_def cd_def) (simp add: W_def)
qed

end
